theory Spec2Isabelle
  imports Complex_Main
begin

section \<open>Python and PyTorch primitives used by \<open>beam_search.py\<close>\<close>

text \<open>
  Exceptions are values: every \<open>assert\<close>, every library call that raises and every
  out-of-range read of the source is a branch that returns \<open>Inl\<close> of one of these.
\<close>

datatype error = AssertionError | RuntimeError | IndexError | ValueError

subsection \<open>\<open>str(int)\<close> and \<open>"_".join\<close>\<close>

definition digit_char :: "nat \<Rightarrow> char" where
  "digit_char d = char_of (48 + d)"

fun str_nat :: "nat \<Rightarrow> string" where
  "str_nat n = (if n < 10 then [digit_char n] else str_nat (n div 10) @ [digit_char (n mod 10)])"

declare str_nat.simps [simp del]

definition str_int :: "int \<Rightarrow> string" where
  "str_int i = (if i < 0 then CHR ''-'' # str_nat (nat (- i)) else str_nat (nat i))"

fun join :: "string \<Rightarrow> string list \<Rightarrow> string" where
  "join sep [] = []"
| "join sep [x] = x"
| "join sep (x # y # zs) = x @ sep @ join sep (y # zs)"

subsection \<open>\<open>max(iterable, key=f)\<close>\<close>

text \<open>
  Python's \<open>max\<close> raises \<open>ValueError\<close> on an empty iterable and otherwise returns the
  first element, in iteration order, whose key is maximal: a later element replaces the
  current best only when its key is strictly greater.
\<close>

fun py_max_key :: "('a \<Rightarrow> real) \<Rightarrow> 'a list \<Rightarrow> error + 'a" where
  "py_max_key f [] = Inl ValueError"
| "py_max_key f (x # xs) = Inr (foldl (\<lambda>best y. if f best < f y then y else best) x xs)"

subsection \<open>\<open>torch.logaddexp\<close>\<close>

text \<open>
  Log-probabilities are \<open>float32\<close> tensors in the source; here they are real numbers, and
  \<open>torch.logaddexp\<close> is the function its documentation gives, \<open>log (exp x + exp y)\<close>.
\<close>

definition logaddexp :: "real \<Rightarrow> real \<Rightarrow> real" where
  "logaddexp x y = ln (exp x + exp y)"

section \<open>\<open>Hypothesis\<close> and \<open>HypothesisList\<close>\<close>

record Hypothesis =
  ys :: "int list"
  hyp_scores :: "real list"
  log_prob :: real
  timestamp :: "nat list"

text \<open>\<open>Hypothesis.key\<close>: \<open>"_".join(map(str, self.ys))\<close>.\<close>

definition key :: "Hypothesis \<Rightarrow> string" where
  "key h = join ''_'' (map str_int (ys h))"

text \<open>
  \<open>HypothesisList._data\<close> is a \<open>dict\<close> from keys to hypotheses. A Python \<open>dict\<close> iterates in
  insertion order, and both \<open>list(b)\<close> and \<open>max(self._data.values(), ...)\<close> depend on that
  order, so the dict is an association list in insertion order.
\<close>

type_synonym HypothesisList = "(string \<times> Hypothesis) list"

definition contains :: "HypothesisList \<Rightarrow> string \<Rightarrow> bool" where
  "contains self k = (k \<in> set (map fst self))"

definition getitem :: "HypothesisList \<Rightarrow> string \<Rightarrow> Hypothesis option" where
  "getitem self k = map_of self k"

definition dict_values :: "HypothesisList \<Rightarrow> Hypothesis list" where
  "dict_values self = map snd self"

text \<open>
  \<open>HypothesisList.add\<close>. In the merge branch \<open>torch.logaddexp(..., out=old_hyp.log_prob)\<close>
  overwrites the stored hypothesis's \<open>log_prob\<close> in place; the entry keeps its position
  in the dict and its other fields. Otherwise \<open>self._data[key] = hyp\<close> appends a new entry.
\<close>

fun merge_entry :: "string \<Rightarrow> real \<Rightarrow> HypothesisList \<Rightarrow> HypothesisList" where
  "merge_entry k p [] = []"
| "merge_entry k p ((k', old) # rest) =
     (if k' = k then (k', old\<lparr>log_prob := logaddexp (log_prob old) p\<rparr>) # rest
      else (k', old) # merge_entry k p rest)"

definition add :: "HypothesisList \<Rightarrow> Hypothesis \<Rightarrow> HypothesisList" where
  "add self hyp =
     (let k = key hyp in
      if contains self k then merge_entry k (log_prob hyp) self
      else self @ [(k, hyp)])"

text \<open>
  \<open>HypothesisList.get_most_probable\<close>. With \<open>length_norm\<close> the key of a hypothesis is
  \<open>log_prob / len(ys)\<close>. For an empty \<open>ys\<close>, which needs a context size of zero, the
  source divides a tensor by zero and gets an infinite or undefined key, where the
  division of HOL gives zero; nothing below is about that case.
\<close>

definition get_most_probable :: "bool \<Rightarrow> HypothesisList \<Rightarrow> error + Hypothesis" where
  "get_most_probable length_norm self =
     (if length_norm
      then py_max_key (\<lambda>hyp. log_prob hyp / real (length (ys hyp))) (dict_values self)
      else py_max_key log_prob (dict_values self))"

section \<open>The PyTorch calls of the two decoders\<close>

text \<open>Python slicing \<open>xs[a:b]\<close> for non-negative bounds: out-of-range bounds are clamped.\<close>

definition slice :: "'a list \<Rightarrow> nat \<Rightarrow> nat \<Rightarrow> 'a list" where
  "slice xs a b = take (b - a) (drop a xs)"

text \<open>
  Python \<open>xs[-c:]\<close> for a non-negative \<open>c\<close>: the last \<open>c\<close> elements, the whole list when
  it is shorter than \<open>c\<close>, and the whole list for \<open>c = 0\<close> (since \<open>-0 = 0\<close>).
\<close>

definition last_n :: "nat \<Rightarrow> 'a list \<Rightarrow> 'a list" where
  "last_n c xs = (if c = 0 then xs else drop (length xs - c) xs)"

text \<open>Indexing a list or a tensor at a non-negative index raises when it is out of range.\<close>

definition at_index :: "'a list \<Rightarrow> nat \<Rightarrow> error + 'a" where
  "at_index xs i = (if i < length xs then Inr (xs ! i) else Inl IndexError)"

text \<open>
  \<open>Tensor.argmax(dim=1)\<close> on one row: the index of the first maximal value; a row with
  no element cannot be reduced.
\<close>

fun argmax_from :: "nat \<Rightarrow> real \<Rightarrow> nat \<Rightarrow> real list \<Rightarrow> nat" where
  "argmax_from bi bv i [] = bi"
| "argmax_from bi bv i (v # vs) =
     (if bv < v then argmax_from i v (Suc i) vs else argmax_from bi bv (Suc i) vs)"

fun argmax :: "real list \<Rightarrow> error + nat" where
  "argmax [] = Inl IndexError"
| "argmax (x # xs) = Inr (argmax_from 0 x 1 xs)"

text \<open>\<open>Tensor.log_softmax(dim=-1)\<close> on one row.\<close>

definition log_softmax :: "real list \<Rightarrow> real list" where
  "log_softmax xs = map (\<lambda>x. x - ln (sum_list (map exp xs))) xs"

text \<open>
  \<open>torch.cumsum\<close> of the list with a leading \<open>0\<close>, as \<open>get_hyps_row_splits\<close> builds it.
\<close>

fun cumsum_from :: "nat \<Rightarrow> nat list \<Rightarrow> nat list" where
  "cumsum_from acc [] = []"
| "cumsum_from acc (x # xs) = (acc + x) # cumsum_from (acc + x) xs"

text \<open>
  \<open>torch.nn.utils.rnn.pack_padded_sequence(input, lengths, batch_first=True,
  enforce_sorted=False)\<close>. It sorts the lengths in descending order with \<open>torch.sort\<close>,
  which leaves the order of equal lengths open; the sort is therefore a parameter
  \<open>sort_desc\<close> that returns the sorted indices, and \<open>sort_ok\<close> is what every admissible
  sort satisfies. The packed \<open>data\<close> lists, time step by time step, frame \<open>t\<close> of every
  sorted row that is longer than \<open>t\<close>; \<open>batch_sizes\<close> counts those rows;
  \<open>unsorted_indices\<close> is the inverse of the sorting permutation. The call raises on an
  empty input and on a length that is not positive. A length that exceeds the frames of
  the padded input is not rejected: the slice of the input that a time step reads is
  clamped, so a step at which a row has no frame contributes nothing for that row to
  \<open>data\<close>, while \<open>batch_sizes\<close> still counts the step. (The padded input is a
  tensor, so all its rows have as many frames; the lists of this model need not.)
\<close>

record 'v PackedSequence =
  data :: "'v list"
  batch_sizes :: "nat list"
  sorted_indices :: "nat list"
  unsorted_indices :: "nat list"

definition sort_ok :: "(int list \<Rightarrow> nat list) \<Rightarrow> bool" where
  "sort_ok sort_desc =
     (\<forall>ls. set (sort_desc ls) = {0..<length ls} \<and> length (sort_desc ls) = length ls \<and>
           sorted_wrt (\<lambda>a b. b \<le> a) (map (\<lambda>i. ls ! i) (sort_desc ls)))"

fun index_of :: "nat \<Rightarrow> nat list \<Rightarrow> nat" where
  "index_of j [] = 0"
| "index_of j (p # ps) = (if p = j then 0 else Suc (index_of j ps))"

definition invert_permutation :: "nat list \<Rightarrow> nat list" where
  "invert_permutation perm = map (\<lambda>j. index_of j perm) [0..<length perm]"

definition batch_size_at :: "int list \<Rightarrow> nat \<Rightarrow> nat" where
  "batch_size_at lengths t = length (filter (\<lambda>l. int t < l) lengths)"

definition pack_padded_sequence ::
  "(int list \<Rightarrow> nat list) \<Rightarrow> 'v list list \<Rightarrow> int list \<Rightarrow> error + 'v PackedSequence" where
  "pack_padded_sequence sort_desc input lengths =
     (let sorted_idx = sort_desc lengths;
          sorted_lengths = map (\<lambda>i. lengths ! i) sorted_idx
      in if \<exists>i \<in> set sorted_idx. length input \<le> i then Inl IndexError
         else
           let sorted_input = map (\<lambda>i. input ! i) sorted_idx
           in if sorted_input = [] then Inl RuntimeError
              else if \<exists>l \<in> set sorted_lengths. l \<le> 0 then Inl RuntimeError
              else
                let steps = [0..<nat (hd sorted_lengths)]
                in Inr \<lparr>data = concat (map (\<lambda>t. map (\<lambda>row. row ! t)
                                (filter (\<lambda>row. t < length row)
                                   (take (batch_size_at sorted_lengths t) sorted_input))) steps),
                        batch_sizes = map (batch_size_at sorted_lengths) steps,
                        sorted_indices = sorted_idx,
                        unsorted_indices = invert_permutation sorted_idx\<rparr>)"

section \<open>The transducer model\<close>

text \<open>
  The network is outside the repository. A batched call of one of its modules is the
  module's row function applied to every row; \<open>'v\<close> is the type of a tensor row.
  \<open>unk_id\<close> is \<open>None\<close> when the model object has no attribute of that name.
\<close>

record 'v model =
  blank_id :: int
  unk_id :: "int option"
  context_size :: nat
  decoder :: "int list \<Rightarrow> 'v"
  decoder_proj :: "'v \<Rightarrow> 'v"
  encoder_proj :: "'v \<Rightarrow> 'v"
  joiner :: "'v \<Rightarrow> 'v \<Rightarrow> real list"

text \<open>\<open>getattr(model, "unk_id", blank_id)\<close>.\<close>

definition get_unk_id :: "'v model \<Rightarrow> int" where
  "get_unk_id m = (case unk_id m of None \<Rightarrow> blank_id m | Some u \<Rightarrow> u)"

text \<open>\<open>v not in (blank_id, unk_id)\<close>, negated.\<close>

definition is_sentinel :: "'v model \<Rightarrow> int \<Rightarrow> bool" where
  "is_sentinel m v = (v = blank_id m \<or> v = get_unk_id m)"

text \<open>
  \<open>model.joiner(current_encoder_out, decoder_out, project_input=False)\<close> on two batches
  with one row each per hypothesis. The joiner is outside the repository; for batches of
  different sizes the call is an error here (a joiner that adds its inputs would
  broadcast a batch of one row), which happens only after \<open>pack_padded_sequence\<close> has
  clamped a length that exceeds the frames.
\<close>

definition joiner_batch :: "'v model \<Rightarrow> 'v list \<Rightarrow> 'v list \<Rightarrow> error + real list list" where
  "joiner_batch m enc dec =
     (if length enc = length dec then Inr (map (\<lambda>(e, d). joiner m e d) (zip enc dec))
      else Inl RuntimeError)"

definition decoder_batch :: "'v model \<Rightarrow> int list list \<Rightarrow> 'v list" where
  "decoder_batch m decoder_input = map (\<lambda>row. decoder_proj m (decoder m row)) decoder_input"

text \<open>Running a fallible function over a list stops at the first error.\<close>

fun map_result :: "('a \<Rightarrow> error + 'b) \<Rightarrow> 'a list \<Rightarrow> error + 'b list" where
  "map_result f [] = Inr []"
| "map_result f (x # xs) =
     (case f x of Inl e \<Rightarrow> Inl e
      | Inr y \<Rightarrow> (case map_result f xs of Inl e \<Rightarrow> Inl e | Inr rest \<Rightarrow> Inr (y # rest)))"

text \<open>
  A decoder call returns, together with its result, the number of calls it issued to the
  model's modules (\<open>decoder\<close>, \<open>decoder_proj\<close>, \<open>encoder_proj\<close>, \<open>joiner\<close>) before it
  entered its main loop and in the iterations of the loop that it completed.
\<close>

type_synonym 'a traced = "nat \<times> (error + 'a)"

record DecodingResults =
  timestamps :: "nat list list"
  hyps :: "int list list"
  scores :: "real list list"

text \<open>
  The epilogue shared by both decoders: \<open>ans.append(sorted_ans[unsorted_indices[i]])\<close>
  for \<open>i\<close> in \<open>range(N)\<close>, for the three result lists.
\<close>

definition unsort :: "nat list \<Rightarrow> nat \<Rightarrow> 'a list \<Rightarrow> error + 'a list" where
  "unsort unsorted N sorted_ans =
     map_result (\<lambda>i. case at_index unsorted i of Inl e \<Rightarrow> Inl e
                      | Inr j \<Rightarrow> at_index sorted_ans j) [0..<N]"

definition make_results ::
  "nat list \<Rightarrow> nat \<Rightarrow> int list list \<Rightarrow> nat list list \<Rightarrow> real list list \<Rightarrow> error + DecodingResults" where
  "make_results unsorted N sorted_ans sorted_timestamps sorted_scores =
     (case unsort unsorted N sorted_ans of Inl e \<Rightarrow> Inl e
      | Inr ans \<Rightarrow>
     (case unsort unsorted N sorted_timestamps of Inl e \<Rightarrow> Inl e
      | Inr ans_timestamps \<Rightarrow>
     (case unsort unsorted N sorted_scores of Inl e \<Rightarrow> Inl e
      | Inr ans_scores \<Rightarrow>
        Inr \<lparr>timestamps = ans_timestamps, hyps = ans, scores = ans_scores\<rparr>)))"

section \<open>\<open>greedy_search_batch\<close>\<close>

record 'v greedy_state =
  g_hyps :: "int list list"
  g_timestamps :: "nat list list"
  g_scores :: "real list list"
  g_decoder_out :: "'v list"
  g_offset :: nat
  g_calls :: nat

text \<open>
  The inner loop \<open>for i, v in enumerate(y)\<close>: it appends to row \<open>i\<close> of the three lists
  when \<open>v\<close> is no sentinel, and records whether any row emitted.
\<close>

fun greedy_emit ::
  "'v model \<Rightarrow> nat \<Rightarrow> real list list \<Rightarrow> (nat \<times> nat) list
   \<Rightarrow> int list list \<times> nat list list \<times> real list list \<times> bool
   \<Rightarrow> error + (int list list \<times> nat list list \<times> real list list \<times> bool)" where
  "greedy_emit m t log_probs [] acc = Inr acc"
| "greedy_emit m t log_probs ((i, v) # rest) (hs, ts, ss, emitted) =
     (if \<not> is_sentinel m (int v) then
        (if i < length hs \<and> i < length ts \<and> i < length ss \<and> i < length log_probs
            \<and> v < length (log_probs ! i)
         then greedy_emit m t log_probs rest
                (hs[i := hs ! i @ [int v]], ts[i := ts ! i @ [t]],
                 ss[i := ss ! i @ [log_probs ! i ! v]], True)
         else Inl IndexError)
      else greedy_emit m t log_probs rest (hs, ts, ss, emitted))"

text \<open>One iteration of \<open>for (t, batch_size) in enumerate(batch_size_list)\<close>.\<close>

definition greedy_step ::
  "'v model \<Rightarrow> 'v list \<Rightarrow> nat \<Rightarrow> nat \<Rightarrow> 'v greedy_state \<Rightarrow> error + 'v greedy_state" where
  "greedy_step m encoder_out t batch_size st =
     (let start = g_offset st;
          end = g_offset st + batch_size;
          current_encoder_out = slice encoder_out start end;
          decoder_out = take batch_size (g_decoder_out st)
      in case joiner_batch m current_encoder_out decoder_out of Inl e \<Rightarrow> Inl e
         | Inr logits \<Rightarrow>
           let log_probs = map log_softmax logits
           in case map_result argmax log_probs of Inl e \<Rightarrow> Inl e
              | Inr y \<Rightarrow>
                (case greedy_emit m t log_probs (zip [0..<length y] y)
                        (g_hyps st, g_timestamps st, g_scores st, False) of
                   Inl e \<Rightarrow> Inl e
                 | Inr (hs, ts, ss, emitted) \<Rightarrow>
                   Inr \<lparr>g_hyps = hs, g_timestamps = ts, g_scores = ss,
                        g_decoder_out =
                          (if emitted
                           then decoder_batch m (map (last_n (context_size m)) (take batch_size hs))
                           else decoder_out),
                        g_offset = end,
                        g_calls = g_calls st + 1 + (if emitted then 2 else 0)\<rparr>))"

fun greedy_loop ::
  "'v model \<Rightarrow> 'v list \<Rightarrow> nat \<Rightarrow> nat list \<Rightarrow> 'v greedy_state
   \<Rightarrow> error \<times> nat + 'v greedy_state" where
  "greedy_loop m encoder_out t [] st = Inr st"
| "greedy_loop m encoder_out t (batch_size # rest) st =
     (case greedy_step m encoder_out t batch_size st of Inl e \<Rightarrow> Inl (e, g_calls st)
      | Inr st' \<Rightarrow> greedy_loop m encoder_out (Suc t) rest st')"

definition greedy_search_batch ::
  "(int list \<Rightarrow> nat list) \<Rightarrow> 'v model \<Rightarrow> 'v list list \<Rightarrow> int list \<Rightarrow> DecodingResults traced" where
  "greedy_search_batch sort_desc m encoder_out encoder_out_lens =
     (if \<not> 1 \<le> length encoder_out then (0, Inl AssertionError)
      else case pack_padded_sequence sort_desc encoder_out encoder_out_lens of
        Inl e \<Rightarrow> (0, Inl e)
      | Inr packed_encoder_out \<Rightarrow>
        let batch_size_list = batch_sizes packed_encoder_out;
            N = length encoder_out
        in if \<not> (\<forall>l \<in> set encoder_out_lens. 0 < l) then (0, Inl AssertionError)
           else if batch_size_list = [] then (0, Inl IndexError)
           else if N \<noteq> hd batch_size_list then (0, Inl AssertionError)
           else
             let hyps0 = replicate N (replicate (context_size m - 1) (- 1) @ [blank_id m]);
                 decoder_out = decoder_batch m hyps0;
                 encoder_out' = map (encoder_proj m) (data packed_encoder_out);
                 st0 = \<lparr>g_hyps = hyps0, g_timestamps = replicate N [], g_scores = replicate N [],
                        g_decoder_out = decoder_out, g_offset = 0, g_calls = 3\<rparr>
             in case greedy_loop m encoder_out' 0 batch_size_list st0 of
                  Inl (e, calls) \<Rightarrow> (calls, Inl e)
                | Inr st \<Rightarrow>
                  (g_calls st,
                   make_results (unsorted_indices packed_encoder_out) N
                     (map (drop (context_size m)) (g_hyps st)) (g_timestamps st) (g_scores st)))"

section \<open>\<open>modified_beam_search\<close>\<close>

text \<open>\<open>get_hyps_row_splits\<close>: the exclusive prefix sums of the sizes of the hypothesis lists.\<close>

definition get_hyps_row_splits :: "HypothesisList list \<Rightarrow> nat list" where
  "get_hyps_row_splits B = 0 # cumsum_from 0 (map length B)"

text \<open>
  Modelled from the spec: \<open>row_splits_to_row_ids\<close> is imported from the repository's
  \<open>utils\<close> module, which is not among the sources. The spec says that all hypotheses of
  one utterance share that utterance's frame at a step, so entry \<open>j\<close> of the result is the
  index of the utterance whose range of the row splits contains \<open>j\<close>.
\<close>

definition row_splits_to_row_ids :: "nat list \<Rightarrow> nat list" where
  "row_splits_to_row_ids row_splits =
     concat (map (\<lambda>i. replicate (row_splits ! Suc i - row_splits ! i) i)
                 [0..<length row_splits - 1])"

text \<open>
  Tensor storage. \<open>log_probs_t = log_probs.reshape(-1)\<close> is taken from a contiguous tensor,
  for which \<open>reshape\<close> returns a view: a second tensor over the same storage. The later
  \<open>log_probs.add_(ys_log_probs)\<close> writes that storage in place, adding to every row of
  \<open>log_probs\<close> the entry of \<open>ys_log_probs\<close> for that row. The store maps the address of a
  storage to its rows; a flat tensor over it reads the rows one after the other.
\<close>

type_synonym storage = "nat \<Rightarrow> real list list"

definition reshape_view :: "nat \<Rightarrow> nat" where
  "reshape_view a = a"

definition add_inplace :: "storage \<Rightarrow> nat \<Rightarrow> real list \<Rightarrow> storage" where
  "add_inplace st a col = st(a := map (\<lambda>(row, p). map (\<lambda>x. x + p) row) (zip (st a) col))"

definition read_flat :: "storage \<Rightarrow> nat \<Rightarrow> real list" where
  "read_flat st a = concat (st a)"

text \<open>
  The body of \<open>for k in range(len(topk_hyp_indexes))\<close> up to the construction of
  \<open>new_hyp\<close>, for the \<open>k\<close>-th selected candidate.
\<close>

definition new_hypothesis ::
  "'v model \<Rightarrow> nat \<Rightarrow> nat \<Rightarrow> Hypothesis list \<Rightarrow> real list \<Rightarrow> real list \<Rightarrow> nat list \<Rightarrow> nat
   \<Rightarrow> error + Hypothesis" where
  "new_hypothesis m t vocab_size A_i current_log_probs topk_log_probs topk_indexes k =
     (case at_index topk_indexes k of Inl e \<Rightarrow> Inl e
      | Inr idx \<Rightarrow>
        let hyp_idx = idx div vocab_size;
            new_token = idx mod vocab_size
        in case at_index A_i hyp_idx of Inl e \<Rightarrow> Inl e
           | Inr hyp \<Rightarrow>
             (case (if \<not> is_sentinel m (int new_token)
                    then (case at_index current_log_probs idx of Inl e \<Rightarrow> Inl e
                          | Inr s \<Rightarrow> Inr (ys hyp @ [int new_token], timestamp hyp @ [t],
                                         hyp_scores hyp @ [s]))
                    else Inr (ys hyp, timestamp hyp, hyp_scores hyp)) of
                Inl e \<Rightarrow> Inl e
              | Inr (new_ys, new_timestamp, new_scores) \<Rightarrow>
                (case at_index topk_log_probs k of Inl e \<Rightarrow> Inl e
                 | Inr new_log_prob \<Rightarrow>
                   Inr \<lparr>ys = new_ys, hyp_scores = new_scores, log_prob = new_log_prob,
                        timestamp = new_timestamp\<rparr>)))"

text \<open>
  The rest of the body, \<open>B[i].add(new_hyp)\<close>, over all \<open>k\<close>. Beside the hypothesis list
  the loop keeps a log of the merges: each pair of the stored hypothesis, as it was, and
  the incoming hypothesis for which \<open>add\<close> took its merge branch. Nothing reads the log.
\<close>

definition merged_with :: "HypothesisList \<Rightarrow> Hypothesis \<Rightarrow> (Hypothesis \<times> Hypothesis) list" where
  "merged_with self hyp = (case getitem self (key hyp) of None \<Rightarrow> [] | Some old \<Rightarrow> [(old, hyp)])"

fun beam_add_all ::
  "'v model \<Rightarrow> nat \<Rightarrow> nat \<Rightarrow> Hypothesis list \<Rightarrow> real list \<Rightarrow> real list \<Rightarrow> nat list \<Rightarrow> nat list
   \<Rightarrow> HypothesisList \<times> (Hypothesis \<times> Hypothesis) list
   \<Rightarrow> error + HypothesisList \<times> (Hypothesis \<times> Hypothesis) list" where
  "beam_add_all m t vocab_size A_i current_log_probs topk_log_probs topk_indexes [] acc = Inr acc"
| "beam_add_all m t vocab_size A_i current_log_probs topk_log_probs topk_indexes (k # ks)
     (B_i, merged) =
     (case new_hypothesis m t vocab_size A_i current_log_probs topk_log_probs topk_indexes k of
        Inl e \<Rightarrow> Inl e
      | Inr new_hyp \<Rightarrow>
        beam_add_all m t vocab_size A_i current_log_probs topk_log_probs topk_indexes ks
          (add B_i new_hyp, merged @ merged_with B_i new_hyp))"

text \<open>
  One iteration of \<open>for i in range(batch_size)\<close>. \<open>Tensor.topk(beam)\<close> raises when the
  slice has fewer than \<open>beam\<close> elements; what it returns otherwise, the selected values
  and their indices, is the parameter \<open>topk\<close>.
\<close>

definition beam_utterance ::
  "(nat \<Rightarrow> real list \<Rightarrow> real list \<times> nat list) \<Rightarrow> 'v model \<Rightarrow> nat \<Rightarrow> nat \<Rightarrow> nat
   \<Rightarrow> real list \<Rightarrow> real list \<Rightarrow> nat list \<Rightarrow> Hypothesis list list \<Rightarrow> nat
   \<Rightarrow> error + HypothesisList \<times> (Hypothesis \<times> Hypothesis) list" where
  "beam_utterance topk m t beam vocab_size log_probs log_probs_t row_splits A i =
     (case at_index row_splits i of Inl e \<Rightarrow> Inl e
      | Inr lo \<Rightarrow>
     (case at_index row_splits (i + 1) of Inl e \<Rightarrow> Inl e
      | Inr hi \<Rightarrow>
        let row = slice log_probs lo hi
        in if length row < beam then Inl RuntimeError
           else
             let (topk_log_probs, topk_indexes) = topk beam row;
                 current_log_probs = slice log_probs_t lo hi
             in case at_index A i of Inl e \<Rightarrow> Inl e
                | Inr A_i \<Rightarrow>
                  beam_add_all m t vocab_size A_i current_log_probs topk_log_probs topk_indexes
                    [0..<length topk_indexes] ([], [])))"

record beam_state =
  b_B :: "HypothesisList list"
  b_finalized :: "HypothesisList list"
  b_offset :: nat
  b_calls :: nat
  b_merged :: "(Hypothesis \<times> Hypothesis) list"

text \<open>
  One iteration of \<open>for (t, batch_size) in enumerate(batch_size_list)\<close>. The logits are
  divided by \<open>temperature\<close>; at temperature zero the source gets infinite or undefined
  log-probs, where the division of HOL gives zero, so the values of the model mean
  something only for a temperature other than zero.
\<close>

definition beam_step ::
  "(nat \<Rightarrow> real list \<Rightarrow> real list \<times> nat list) \<Rightarrow> 'v model \<Rightarrow> 'v list \<Rightarrow> nat \<Rightarrow> real
   \<Rightarrow> nat \<Rightarrow> nat \<Rightarrow> beam_state \<Rightarrow> error + beam_state" where
  "beam_step topk m encoder_out beam temperature t batch_size st =
     (let start = b_offset st;
          end = b_offset st + batch_size;
          current_encoder_out = slice encoder_out start end;
          finalized_B = drop batch_size (b_B st) @ b_finalized st;
          B = take batch_size (b_B st);
          hyps_row_splits = get_hyps_row_splits B;
          A = map dict_values B;
          flat = concat A
      in if flat = [] then Inl RuntimeError
         else
           let ys_log_probs = map log_prob flat;
               decoder_input = map (\<lambda>hyp. last_n (context_size m) (ys hyp)) flat;
               decoder_out = decoder_batch m decoder_input
           in case map_result (at_index current_encoder_out)
                     (row_splits_to_row_ids hyps_row_splits) of
                Inl e \<Rightarrow> Inl e
              | Inr selected_encoder_out \<Rightarrow>
                (case joiner_batch m selected_encoder_out decoder_out of Inl e \<Rightarrow> Inl e
                 | Inr logits \<Rightarrow>
                   let store0 = (\<lambda>a. [])
                          (0 := map (\<lambda>row. log_softmax (map (\<lambda>x. x / temperature) row)) logits);
                       log_probs = 0;
                       log_probs_t = reshape_view log_probs;
                       store1 = add_inplace store0 log_probs ys_log_probs;
                       vocab_size = length (hd (store1 log_probs));
                       log_probs' = reshape_view log_probs;
                       row_splits = map (\<lambda>s. s * vocab_size) hyps_row_splits
                   in case map_result
                             (beam_utterance topk m t beam vocab_size
                                (read_flat store1 log_probs') (read_flat store1 log_probs_t)
                                row_splits A)
                             [0..<batch_size] of
                        Inl e \<Rightarrow> Inl e
                      | Inr results \<Rightarrow>
                        Inr \<lparr>b_B = map fst results, b_finalized = finalized_B, b_offset = end,
                             b_calls = b_calls st + 3,
                             b_merged = b_merged st @ concat (map snd results)\<rparr>))"

fun beam_loop ::
  "(nat \<Rightarrow> real list \<Rightarrow> real list \<times> nat list) \<Rightarrow> 'v model \<Rightarrow> 'v list \<Rightarrow> nat \<Rightarrow> real
   \<Rightarrow> nat \<Rightarrow> nat list \<Rightarrow> beam_state \<Rightarrow> error \<times> nat + beam_state" where
  "beam_loop topk m encoder_out beam temperature t [] st = Inr st"
| "beam_loop topk m encoder_out beam temperature t (batch_size # rest) st =
     (case beam_step topk m encoder_out beam temperature t batch_size st of
        Inl e \<Rightarrow> Inl (e, b_calls st)
      | Inr st' \<Rightarrow> beam_loop topk m encoder_out beam temperature (Suc t) rest st')"

definition initial_hypothesis :: "'v model \<Rightarrow> Hypothesis" where
  "initial_hypothesis m =
     \<lparr>ys = replicate (context_size m) (blank_id m), hyp_scores = [], log_prob = 0,
      timestamp = []\<rparr>"

text \<open>
  \<open>modified_beam_search\<close> up to the end of its main loop: the checks, the initial
  hypothesis lists and the loop. It returns \<open>unsorted_indices\<close> and the final state.
\<close>

definition beam_search_loop ::
  "(nat \<Rightarrow> real list \<Rightarrow> real list \<times> nat list) \<Rightarrow> (int list \<Rightarrow> nat list) \<Rightarrow> 'v model
   \<Rightarrow> 'v list list \<Rightarrow> int list \<Rightarrow> nat \<Rightarrow> real \<Rightarrow> (nat list \<times> beam_state) traced" where
  "beam_search_loop topk sort_desc m encoder_out encoder_out_lens beam temperature =
     (if \<not> 1 \<le> length encoder_out then (0, Inl AssertionError)
      else case pack_padded_sequence sort_desc encoder_out encoder_out_lens of
        Inl e \<Rightarrow> (0, Inl e)
      | Inr packed_encoder_out \<Rightarrow>
        let batch_size_list = batch_sizes packed_encoder_out;
            N = length encoder_out
        in if \<not> (\<forall>l \<in> set encoder_out_lens. 0 < l) then (0, Inl AssertionError)
           else if batch_size_list = [] then (0, Inl IndexError)
           else if N \<noteq> hd batch_size_list then (0, Inl AssertionError)
           else
             let B0 = replicate N (add [] (initial_hypothesis m));
                 encoder_out' = map (encoder_proj m) (data packed_encoder_out);
                 st0 = \<lparr>b_B = B0, b_finalized = [], b_offset = 0, b_calls = 1, b_merged = []\<rparr>
             in case beam_loop topk m encoder_out' beam temperature 0 batch_size_list st0 of
                  Inl (e, calls) \<Rightarrow> (calls, Inl e)
                | Inr st \<Rightarrow> (b_calls st, Inr (unsorted_indices packed_encoder_out, st)))"

text \<open>The whole function: the loop, then the selection of the best hypotheses and the epilogue.\<close>

definition modified_beam_search ::
  "(nat \<Rightarrow> real list \<Rightarrow> real list \<times> nat list) \<Rightarrow> (int list \<Rightarrow> nat list) \<Rightarrow> 'v model
   \<Rightarrow> 'v list list \<Rightarrow> int list \<Rightarrow> nat \<Rightarrow> real \<Rightarrow> DecodingResults traced" where
  "modified_beam_search topk sort_desc m encoder_out encoder_out_lens beam temperature =
     (case beam_search_loop topk sort_desc m encoder_out encoder_out_lens beam temperature of
        (calls, Inl e) \<Rightarrow> (calls, Inl e)
      | (calls, Inr (unsorted, st)) \<Rightarrow>
        (calls,
         case map_result (get_most_probable True) (b_B st @ b_finalized st) of
           Inl e \<Rightarrow> Inl e
         | Inr best_hyps \<Rightarrow>
           make_results unsorted (length encoder_out)
             (map (\<lambda>h. drop (context_size m) (ys h)) best_hyps)
             (map timestamp best_hyps) (map hyp_scores best_hyps)))"

section \<open>Auxiliary definitions\<close>

text \<open>The characters \<open>str_nat\<close> produces.\<close>

definition is_digit :: "char \<Rightarrow> bool" where
  "is_digit c = (\<exists>d<10. c = digit_char d)"

section \<open>Reference instances\<close>

text \<open>
  One instance of \<open>torch.sort\<close> and one of \<open>Tensor.topk\<close> for the concrete runs below:
  both order by descending value and keep equal values in their order of occurrence.
  PyTorch promises no order among equal values; no run below has equal values among
  those that decide a selection.
\<close>

definition argsort_desc :: "int list \<Rightarrow> nat list" where
  "argsort_desc ls = sort_key (\<lambda>i. - (ls ! i)) [0..<length ls]"

definition topk_first :: "nat \<Rightarrow> real list \<Rightarrow> real list \<times> nat list" where
  "topk_first k xs =
     (let idx = take k (sort_key (\<lambda>i. - (xs ! i)) [0..<length xs])
      in (map (\<lambda>i. xs ! i) idx, idx))"

text \<open>
  A small transducer: vocabulary \<open>{0, 1, 2}\<close> with blank \<open>0\<close>, context size \<open>2\<close>; tensor
  rows are integer lists, the decoder returns its context and the projections change
  nothing. After the context \<open>[0, 1]\<close> the joiner prefers the blank on frame \<open>[8]\<close> and
  token \<open>2\<close> on every other frame; after every other context it prefers token \<open>1\<close>.
\<close>

definition toy :: "int list model" where
  "toy = \<lparr>blank_id = 0, unk_id = None, context_size = 2,
          decoder = (\<lambda>ctx. ctx), decoder_proj = (\<lambda>d. d), encoder_proj = (\<lambda>e. e),
          joiner = (\<lambda>e d. if d = [0, 1] then (if e = [8] then [2, 1, 0] else [0, 1, 2])
                         else [1, 2, 0])\<rparr>"

text \<open>The normaliser of \<open>log_softmax\<close> on the rows of \<open>toy\<close>.\<close>

definition toy_Z :: real where
  "toy_Z = ln (exp 0 + exp 1 + exp 2)"


section \<open>One row of a greedy step\<close>

text \<open>
  What one iteration of the greedy loop does to the row of one utterance, given the
  projected frame \<open>e\<close> and the decoder output \<open>d\<close> of that row.
\<close>

definition greedy_row ::
  "'v model \<Rightarrow> nat \<Rightarrow> 'v \<Rightarrow> 'v \<Rightarrow> int list \<times> nat list \<times> real list
   \<Rightarrow> error + (int list \<times> nat list \<times> real list)" where
  "greedy_row m t e d row =
     (let lp = log_softmax (joiner m e d)
      in case argmax lp of Inl err \<Rightarrow> Inl err
         | Inr v \<Rightarrow>
           (case row of (h, ts, ss) \<Rightarrow>
              if is_sentinel m (int v) then Inr (h, ts, ss)
              else Inr (h @ [int v], ts @ [t], ss @ [lp ! v])))"

text \<open>
  The invariant of one utterance's row before time step \<open>t\<close>: the token list is \<open>c\<close>
  padding tokens followed by one token per timestamp and per score, the timestamps
  increase strictly and are smaller than \<open>t\<close>, and no emitted token is a sentinel.
\<close>

definition row_inv :: "'v model \<Rightarrow> nat \<Rightarrow> nat \<Rightarrow> int list \<Rightarrow> nat list \<Rightarrow> real list \<Rightarrow> bool" where
  "row_inv m c t h ts ss \<longleftrightarrow>
     length h = c + length ts \<and> length ss = length ts \<and> sorted_wrt (<) ts \<and>
     (\<forall>x \<in> set ts. x < t) \<and> (\<forall>v \<in> set (drop c h). \<not> is_sentinel m v)"

section \<open>Invariants of the beam search\<close>

text \<open>
  Every hypothesis that exists before time step \<open>t\<close> satisfies the row invariant; every
  hypothesis list is a dict whose keys are the keys of its hypotheses; every logged merge
  joined two hypotheses with the same tokens and as many timestamps and scores.
\<close>

definition hyp_inv :: "'v model \<Rightarrow> nat \<Rightarrow> Hypothesis \<Rightarrow> bool" where
  "hyp_inv m t h \<longleftrightarrow> row_inv m (context_size m) t (ys h) (timestamp h) (hyp_scores h)"

definition hyps_inv :: "'v model \<Rightarrow> nat \<Rightarrow> HypothesisList \<Rightarrow> bool" where
  "hyps_inv m t B \<longleftrightarrow> (\<forall>(k, h) \<in> set B. k = key h \<and> hyp_inv m t h) \<and> distinct (map fst B)"

definition merge_ok :: "Hypothesis \<times> Hypothesis \<Rightarrow> bool" where
  "merge_ok p \<longleftrightarrow>
     (case p of (old, new) \<Rightarrow>
        ys old = ys new \<and> length (timestamp old) = length (timestamp new) \<and>
        length (hyp_scores old) = length (hyp_scores new))"

definition beam_inv :: "'v model \<Rightarrow> nat \<Rightarrow> beam_state \<Rightarrow> bool" where
  "beam_inv m t st \<longleftrightarrow>
     (\<forall>B \<in> set (b_B st @ b_finalized st). hyps_inv m t B) \<and> (\<forall>p \<in> set (b_merged st). merge_ok p)"

section \<open>Decoding one utterance\<close>

text \<open>
  What the decoders compute for a single utterance, written without the batch: the
  reference against which the batched functions are compared. A valid batch is not
  empty, has one length per utterance, and every length is positive and not greater
  than the number of frames of its utterance.
\<close>

definition valid_batch :: "'v list list \<Rightarrow> int list \<Rightarrow> bool" where
  "valid_batch encoder_out encoder_out_lens \<longleftrightarrow>
     encoder_out \<noteq> [] \<and> length encoder_out_lens = length encoder_out \<and>
     (\<forall>i<length encoder_out.
        0 < encoder_out_lens ! i \<and> encoder_out_lens ! i \<le> int (length (encoder_out ! i)))"

definition permute :: "nat list \<Rightarrow> 'a list \<Rightarrow> 'a list" where
  "permute p xs = map (\<lambda>i. xs ! i) p"

fun greedy_utt_loop ::
  "'v model \<Rightarrow> nat \<Rightarrow> 'v list \<Rightarrow> int list \<times> nat list \<times> real list
   \<Rightarrow> error + (int list \<times> nat list \<times> real list)" where
  "greedy_utt_loop m t [] row = Inr row"
| "greedy_utt_loop m t (e # es) row =
     (case greedy_row m t e (decoder_proj m (decoder m (last_n (context_size m) (fst row)))) row of
        Inl err \<Rightarrow> Inl err
      | Inr row' \<Rightarrow> greedy_utt_loop m (Suc t) es row')"

definition greedy_utterance ::
  "'v model \<Rightarrow> 'v list \<Rightarrow> int \<Rightarrow> error + (int list \<times> nat list \<times> real list)" where
  "greedy_utterance m frames len =
     (case greedy_utt_loop m 0 (map (encoder_proj m) (take (nat len) frames))
             (replicate (context_size m - 1) (- 1) @ [blank_id m], [], []) of
        Inl err \<Rightarrow> Inl err
      | Inr (h, ts, ss) \<Rightarrow> Inr (drop (context_size m) h, ts, ss))"

text \<open>
  The frames that the rest of the main loop, from time step \<open>t\<close> on, feeds to the row \<open>j\<close>
  of the sorted batch, when step \<open>s\<close> holds the frames \<open>F s\<close> of the first \<open>bs s\<close> rows.
\<close>

definition row_frames :: "(nat \<Rightarrow> 'v list) \<Rightarrow> (nat \<Rightarrow> nat) \<Rightarrow> nat \<Rightarrow> nat \<Rightarrow> nat \<Rightarrow> 'v list" where
  "row_frames F bs j t T = map (\<lambda>s. F s ! j) (filter (\<lambda>s. j < bs s) [t..<T])"

text \<open>
  The situation of the greedy loop before time step \<open>t\<close>: the rest of the packed data
  is the frames of the remaining steps, the batch sizes do not increase, the state has
  \<open>N\<close> rows, and the decoder output of every row it still holds was computed from that
  row's last tokens.
\<close>

definition greedy_ctx ::
  "'v model \<Rightarrow> 'v list \<Rightarrow> (nat \<Rightarrow> 'v list) \<Rightarrow> (nat \<Rightarrow> nat) \<Rightarrow> nat \<Rightarrow> nat \<Rightarrow> nat
   \<Rightarrow> 'v greedy_state \<Rightarrow> bool" where
  "greedy_ctx m dat F bs T N t st \<longleftrightarrow>
     drop (g_offset st) dat = concat (map F [t..<T]) \<and>
     (\<forall>s. length (F s) = bs s) \<and> (\<forall>s s'. s \<le> s' \<longrightarrow> bs s' \<le> bs s) \<and> (\<forall>s. bs s \<le> N) \<and>
     length (g_hyps st) = N \<and> length (g_timestamps st) = N \<and> length (g_scores st) = N \<and>
     (t < T \<longrightarrow> bs t \<le> length (g_decoder_out st)) \<and>
     (\<forall>j<length (g_decoder_out st). j < N \<longrightarrow>
        g_decoder_out st ! j
          = decoder_proj m (decoder m (last_n (context_size m) (g_hyps st ! j))))"

text \<open>
  The projected frames that time step \<open>s\<close> of either main loop reads from the packed
  batch, for sorted inputs \<open>SI\<close> with sorted lengths \<open>SL\<close>, and the state in which
  \<open>greedy_search_batch\<close> enters its main loop.
\<close>

definition step_frames :: "'v model \<Rightarrow> 'v list list \<Rightarrow> int list \<Rightarrow> nat \<Rightarrow> 'v list" where
  "step_frames m SI SL s = map (\<lambda>row. encoder_proj m (row ! s)) (take (batch_size_at SL s) SI)"

definition greedy_init :: "'v model \<Rightarrow> nat \<Rightarrow> 'v greedy_state" where
  "greedy_init m N =
     (let hyps0 = replicate N (replicate (context_size m - 1) (- 1) @ [blank_id m])
      in \<lparr>g_hyps = hyps0, g_timestamps = replicate N [], g_scores = replicate N [],
          g_decoder_out = decoder_batch m hyps0, g_offset = 0, g_calls = 3\<rparr>)"

text \<open>
  The beam search on a single utterance. \<open>hyp_row\<close> is the row of \<open>log_probs\<close> that
  belongs to one hypothesis, after \<open>log_probs.add_(ys_log_probs)\<close>, on the frame \<open>e\<close>;
  \<open>beam_utt_step\<close> is one time step on the hypothesis list of the utterance, with the
  log of its merges.
\<close>

definition hyp_row :: "'v model \<Rightarrow> real \<Rightarrow> 'v \<Rightarrow> Hypothesis \<Rightarrow> real list" where
  "hyp_row m temperature e hyp =
     map (\<lambda>x. x + log_prob hyp)
       (log_softmax (map (\<lambda>x. x / temperature)
          (joiner m e (decoder_proj m (decoder m (last_n (context_size m) (ys hyp)))))))"

definition beam_utt_step ::
  "(nat \<Rightarrow> real list \<Rightarrow> real list \<times> nat list) \<Rightarrow> 'v model \<Rightarrow> nat \<Rightarrow> real \<Rightarrow> nat \<Rightarrow> 'v
   \<Rightarrow> HypothesisList \<Rightarrow> error + HypothesisList \<times> (Hypothesis \<times> Hypothesis) list" where
  "beam_utt_step topk m beam temperature t e B_i =
     (let A_i = dict_values B_i;
          rows = map (hyp_row m temperature e) A_i;
          row = concat rows
      in if A_i = [] \<or> length row < beam then Inl RuntimeError
         else
           let (topk_log_probs, topk_indexes) = topk beam row
           in beam_add_all m t (length (hd rows)) A_i row topk_log_probs topk_indexes
                [0..<length topk_indexes] ([], []))"

fun beam_utt_loop ::
  "(nat \<Rightarrow> real list \<Rightarrow> real list \<times> nat list) \<Rightarrow> 'v model \<Rightarrow> nat \<Rightarrow> real \<Rightarrow> nat \<Rightarrow> 'v list
   \<Rightarrow> HypothesisList \<Rightarrow> error + HypothesisList" where
  "beam_utt_loop topk m beam temperature t [] B_i = Inr B_i"
| "beam_utt_loop topk m beam temperature t (e # es) B_i =
     (case beam_utt_step topk m beam temperature t e B_i of
        Inl err \<Rightarrow> Inl err
      | Inr r \<Rightarrow> beam_utt_loop topk m beam temperature (Suc t) es (fst r))"

definition beam_search_utterance ::
  "(nat \<Rightarrow> real list \<Rightarrow> real list \<times> nat list) \<Rightarrow> 'v model \<Rightarrow> 'v list \<Rightarrow> int \<Rightarrow> nat \<Rightarrow> real
   \<Rightarrow> error + (int list \<times> nat list \<times> real list)" where
  "beam_search_utterance topk m frames len beam temperature =
     (case beam_utt_loop topk m beam temperature 0 (map (encoder_proj m) (take (nat len) frames))
             (add [] (initial_hypothesis m)) of
        Inl err \<Rightarrow> Inl err
      | Inr B_i \<Rightarrow>
        (case get_most_probable True B_i of
           Inl err \<Rightarrow> Inl err
         | Inr h \<Rightarrow> Inr (drop (context_size m) (ys h), timestamp h, hyp_scores h)))"

text \<open>
  The situation of the beam search loop before time step \<open>t\<close>: as for the greedy loop,
  and every step before \<open>T\<close> has at least one row; the active and the finalized
  hypothesis lists together are the \<open>N\<close> rows of the sorted batch.
\<close>

definition beam_ctx ::
  "'v list \<Rightarrow> (nat \<Rightarrow> 'v list) \<Rightarrow> (nat \<Rightarrow> nat) \<Rightarrow> nat \<Rightarrow> nat \<Rightarrow> nat \<Rightarrow> beam_state \<Rightarrow> bool" where
  "beam_ctx dat F bs T N t st \<longleftrightarrow>
     drop (b_offset st) dat = concat (map F [t..<T]) \<and>
     (\<forall>s. length (F s) = bs s) \<and> (\<forall>s s'. s \<le> s' \<longrightarrow> bs s' \<le> bs s) \<and> (\<forall>s<T. 0 < bs s) \<and>
     length (b_B st @ b_finalized st) = N \<and> (t < T \<longrightarrow> bs t \<le> length (b_B st))"

section \<open>Keys determine token sequences\<close>

lemma str_nat_nonempty: "str_nat n \<noteq> []"
  by (subst str_nat.simps) simp


lemma digit_char_inj: "a < 10 \<Longrightarrow> b < 10 \<Longrightarrow> digit_char a = digit_char b \<Longrightarrow> a = b"
  unfolding digit_char_def char_of_eq_iff
  by (simp add: take_bit_nat_eq_self)

lemma str_nat_digits: "c \<in> set (str_nat n) \<Longrightarrow> is_digit c"
proof (induction n rule: str_nat.induct)
  case (1 n)
  show ?case
  proof (cases "n < 10")
    case True
    with 1(2) show ?thesis by (subst (asm) str_nat.simps) (auto simp: is_digit_def)
  next
    case False
    with 1 show ?thesis by (subst (asm) (2) str_nat.simps) (auto simp: is_digit_def intro: exI[of _ "n mod 10"])
  qed
qed

lemma str_nat_inj: "str_nat n = str_nat m \<Longrightarrow> n = m"
proof (induction n arbitrary: m rule: str_nat.induct)
  case (1 n)
  show ?case
  proof (cases "n < 10")
    case True
    note n = this
    show ?thesis
    proof (cases "m < 10")
      case True
      with n 1(2) show ?thesis
        by (simp add: str_nat.simps[of n] str_nat.simps[of m] digit_char_inj)
    next
      case False
      with n 1(2) have "[digit_char n] = str_nat (m div 10) @ [digit_char (m mod 10)]"
        by (simp add: str_nat.simps[of n] str_nat.simps[of m])
      then have "str_nat (m div 10) = []" by simp
      then show ?thesis using str_nat_nonempty by blast
    qed
  next
    case False
    note n = this
    show ?thesis
    proof (cases "m < 10")
      case True
      with n 1(2) have "str_nat (n div 10) @ [digit_char (n mod 10)] = [digit_char m]"
        by (simp add: str_nat.simps[of n] str_nat.simps[of m])
      then have "str_nat (n div 10) = []" by simp
      then show ?thesis using str_nat_nonempty by blast
    next
      case False
      with n 1(2) have e: "str_nat (n div 10) = str_nat (m div 10)" "digit_char (n mod 10) = digit_char (m mod 10)"
        by (simp_all add: str_nat.simps[of n] str_nat.simps[of m])
      from 1(1)[OF n e(1)] have "n div 10 = m div 10" .
      moreover from e(2) have "n mod 10 = m mod 10" by (simp add: digit_char_inj)
      ultimately show ?thesis by (metis div_mult_mod_eq)
    qed
  qed
qed

lemma is_digit_code: "is_digit c \<Longrightarrow> 48 \<le> (of_char c :: nat) \<and> (of_char c :: nat) \<le> 57"
  by (auto simp: is_digit_def digit_char_def)

lemma is_digit_not_sep: "is_digit c \<Longrightarrow> c \<noteq> CHR ''_'' \<and> c \<noteq> CHR ''-''"
  using is_digit_code[of c] by auto

lemma str_int_nonempty: "str_int i \<noteq> []"
  by (simp add: str_int_def str_nat_nonempty)

lemma str_int_no_sep: "CHR ''_'' \<notin> set (str_int i)"
  using str_nat_digits is_digit_not_sep by (auto simp: str_int_def)

lemma str_nat_hd: "hd (str_nat n) \<noteq> CHR ''-''"
  using str_nat_digits[of "hd (str_nat n)" n] is_digit_not_sep str_nat_nonempty[of n]
  by (metis hd_in_set)

lemma str_int_inj: "str_int i = str_int j \<Longrightarrow> i = j"
proof -
  assume a: "str_int i = str_int j"
  show ?thesis
  proof (cases "i < 0")
    case True
    note i = this
    show ?thesis
    proof (cases "j < 0")
      case True
      with i a have "str_nat (nat (- i)) = str_nat (nat (- j))" by (simp add: str_int_def)
      then have "nat (- i) = nat (- j)" by (rule str_nat_inj)
      with i True show ?thesis by simp
    next
      case False
      with i a have "hd (str_nat (nat j)) = CHR ''-''" by (simp add: str_int_def) (metis list.sel(1))
      then show ?thesis using str_nat_hd by blast
    qed
  next
    case False
    note i = this
    show ?thesis
    proof (cases "j < 0")
      case True
      with i a have "hd (str_nat (nat i)) = CHR ''-''" by (simp add: str_int_def)
      then show ?thesis using str_nat_hd by blast
    next
      case False
      with i a have "str_nat (nat i) = str_nat (nat j)" by (simp add: str_int_def)
      then have "nat i = nat j" by (rule str_nat_inj)
      with i False show ?thesis by simp
    qed
  qed
qed

lemma join_Cons: "join sep (x # xs) = (if xs = [] then x else x @ sep @ join sep xs)"
  by (cases xs) auto

lemma join_underscore_inj:
  assumes "\<forall>x\<in>set xs. x \<noteq> [] \<and> CHR ''_'' \<notin> set x" "\<forall>y\<in>set zs. y \<noteq> [] \<and> CHR ''_'' \<notin> set y"
    and "join ''_'' xs = join ''_'' zs"
  shows "xs = zs"
  using assms
proof (induction xs arbitrary: zs)
  case Nil
  then show ?case by (cases zs) (auto simp: join_Cons split: if_splits)
next
  case (Cons x xs)
  show ?case
  proof (cases zs)
    case Nil
    with Cons.prems show ?thesis by (auto simp: join_Cons split: if_splits)
  next
    case (Cons z zs')
    have tw: "takeWhile (\<lambda>c. c \<noteq> CHR ''_'') (join ''_'' (x # xs)) = x"
      using Cons.prems(1) by (auto simp: join_Cons takeWhile_append2 takeWhile_eq_all_conv[THEN iffD2] takeWhile_tail)
    have tw2: "takeWhile (\<lambda>c. c \<noteq> CHR ''_'') (join ''_'' (z # zs')) = z"
      using Cons.prems(2) Cons by (auto simp: join_Cons takeWhile_append2 takeWhile_eq_all_conv[THEN iffD2] takeWhile_tail)
    from tw tw2 Cons.prems(3) Cons have xz: "x = z" by simp
    have rest: "join ''_'' xs = join ''_'' zs' \<and> (xs = [] \<longleftrightarrow> zs' = [])"
      using Cons.prems Cons xz 
      by (auto simp: join_Cons split: if_splits)
    show ?thesis using Cons.IH[of zs'] Cons.prems Cons xz rest by auto
  qed
qed

lemma key_inj: "key h = key h' \<Longrightarrow> ys h = ys h'"
proof -
  assume a: "key h = key h'"
  have "map str_int (ys h) = map str_int (ys h')"
  proof (rule join_underscore_inj)
    show "\<forall>x\<in>set (map str_int (ys h)). x \<noteq> [] \<and> CHR ''_'' \<notin> set x"
      using str_int_nonempty str_int_no_sep by auto
    show "\<forall>y\<in>set (map str_int (ys h')). y \<noteq> [] \<and> CHR ''_'' \<notin> set y"
      using str_int_nonempty str_int_no_sep by auto
    show "join ''_'' (map str_int (ys h)) = join ''_'' (map str_int (ys h'))"
      using a by (simp add: key_def)
  qed
  moreover have "inj str_int" using str_int_inj by (auto simp: inj_def)
  ultimately show ?thesis by (simp add: inj_map_eq_map)
qed

section \<open>The unknown sentinel\<close>

lemma is_sentinel_no_unk: "unk_id m = None \<Longrightarrow> is_sentinel m v \<longleftrightarrow> v = blank_id m"
  by (simp add: is_sentinel_def get_unk_id_def)

lemma is_sentinel_second: "is_sentinel m v \<Longrightarrow> v \<noteq> blank_id m \<Longrightarrow> unk_id m = Some v"
  by (auto simp: is_sentinel_def get_unk_id_def split: option.splits)

text \<open>Setting \<open>unk_id\<close> changes a decoder only through the sentinel test.\<close>

lemma greedy_emit_cong:
  assumes "is_sentinel m' = is_sentinel m"
  shows "greedy_emit m' t lp ivs acc = greedy_emit m t lp ivs acc"
  using assms by (induction m t lp ivs acc rule: greedy_emit.induct) auto

lemma greedy_step_cong:
  assumes s: "is_sentinel (m\<lparr>unk_id := u\<rparr>) = is_sentinel m"
  shows "greedy_step (m\<lparr>unk_id := u\<rparr>) enc t b st = greedy_step m enc t b st"
proof -
  have e: "\<And>t lp ivs acc. greedy_emit (m\<lparr>unk_id := u\<rparr>) t lp ivs acc = greedy_emit m t lp ivs acc"
    by (rule greedy_emit_cong[OF s])
  show ?thesis by (simp add: greedy_step_def joiner_batch_def decoder_batch_def e Let_def cong: sum.case_cong prod.case_cong if_cong)
qed

lemma greedy_loop_cong:
  assumes s: "is_sentinel (m\<lparr>unk_id := u\<rparr>) = is_sentinel m"
  shows "greedy_loop (m\<lparr>unk_id := u\<rparr>) enc t bs st = greedy_loop m enc t bs st"
  by (induction bs arbitrary: t st) (simp_all add: greedy_step_cong[OF s] cong: sum.case_cong prod.case_cong if_cong)

lemma greedy_search_batch_cong:
  assumes s: "is_sentinel (m\<lparr>unk_id := u\<rparr>) = is_sentinel m"
  shows "greedy_search_batch srt (m\<lparr>unk_id := u\<rparr>) enc lens = greedy_search_batch srt m enc lens"
  by (simp add: greedy_search_batch_def greedy_loop_cong[OF s] decoder_batch_def Let_def cong: sum.case_cong prod.case_cong if_cong)

lemma new_hypothesis_cong:
  assumes "is_sentinel m' = is_sentinel m"
  shows "new_hypothesis m' t V A c tlp tix k = new_hypothesis m t V A c tlp tix k"
  by (simp only: new_hypothesis_def assms)

lemma beam_add_all_cong:
  assumes "is_sentinel m' = is_sentinel m"
  shows "beam_add_all m' t V A c tlp tix ks acc = beam_add_all m t V A c tlp tix ks acc"
proof (induction ks arbitrary: acc)
  case Nil
  then show ?case by simp
next
  case (Cons k ks)
  then show ?case
    by (cases acc) (simp add: new_hypothesis_cong[OF assms] cong: sum.case_cong)
qed

lemma beam_utterance_cong:
  assumes "is_sentinel m' = is_sentinel m"
  shows "beam_utterance topk m' t beam V lp lpt rs A i = beam_utterance topk m t beam V lp lpt rs A i"
  by (simp add: beam_utterance_def beam_add_all_cong[OF assms] Let_def cong: sum.case_cong prod.case_cong if_cong)

lemma beam_step_cong:
  assumes s: "is_sentinel (m\<lparr>unk_id := u\<rparr>) = is_sentinel m"
  shows "beam_step topk (m\<lparr>unk_id := u\<rparr>) enc beam temp t b st = beam_step topk m enc beam temp t b st"
proof -
  have e: "\<And>t V lp lpt rs A. beam_utterance topk (m\<lparr>unk_id := u\<rparr>) t beam V lp lpt rs A
             = beam_utterance topk m t beam V lp lpt rs A"
    using beam_utterance_cong[OF s] by (intro ext)
  show ?thesis
    by (simp add: beam_step_def joiner_batch_def decoder_batch_def e Let_def cong: sum.case_cong prod.case_cong if_cong)
qed

lemma beam_loop_cong:
  assumes s: "is_sentinel (m\<lparr>unk_id := u\<rparr>) = is_sentinel m"
  shows "beam_loop topk (m\<lparr>unk_id := u\<rparr>) enc beam temp t bs st = beam_loop topk m enc beam temp t bs st"
  by (induction bs arbitrary: t st) (simp_all add: beam_step_cong[OF s] cong: sum.case_cong prod.case_cong if_cong)

lemma modified_beam_search_cong:
  assumes s: "is_sentinel (m\<lparr>unk_id := u\<rparr>) = is_sentinel m"
  shows "modified_beam_search topk srt (m\<lparr>unk_id := u\<rparr>) enc lens beam temp
         = modified_beam_search topk srt m enc lens beam temp"
  by (simp add: modified_beam_search_def beam_search_loop_def beam_loop_cong[OF s]
      initial_hypothesis_def Let_def cong: sum.case_cong prod.case_cong if_cong)

lemma is_sentinel_default:
  "unk_id m = None \<Longrightarrow> is_sentinel (m\<lparr>unk_id := Some (blank_id m)\<rparr>) = is_sentinel m"
  by (auto simp: is_sentinel_def get_unk_id_def fun_eq_iff)

section \<open>Invalid input\<close>

text \<open>
  Claim C7. On an empty batch, and on a batch with a valid length that is zero or
  negative, both decoders fail, and they fail having issued no call to the model: the
  reported number of calls is \<open>0\<close> and the result is an error, never a
  \<open>DecodingResults\<close>.
\<close>

theorem invalid_input_rejected:
  assumes "encoder_out = [] \<or> (\<exists>l \<in> set encoder_out_lens. l \<le> 0)"
  shows "(\<exists>e. greedy_search_batch sort_desc m encoder_out encoder_out_lens = (0, Inl e)) \<and>
         (\<exists>e. modified_beam_search topk sort_desc m encoder_out encoder_out_lens beam temperature
                 = (0, Inl e))"
proof -
  have neg: "encoder_out \<noteq> [] \<Longrightarrow> \<not> (\<forall>l \<in> set encoder_out_lens. 0 < l)"
    using assms by (auto simp: not_less)
  show ?thesis
  proof (cases "encoder_out = []")
    case True
    then show ?thesis by (simp add: greedy_search_batch_def modified_beam_search_def beam_search_loop_def)
  next
    case False
    with neg have n: "\<not> (\<forall>l \<in> set encoder_out_lens. 0 < l)" by simp
    show ?thesis
      using n
      by (cases "pack_padded_sequence sort_desc encoder_out encoder_out_lens")
         (simp_all add: greedy_search_batch_def modified_beam_search_def beam_search_loop_def Let_def)
  qed
qed

theorem invalid_input_rejected_witness:
  "(\<exists>l \<in> set [0::int]. l \<le> 0) \<and>
   (\<exists>e. greedy_search_batch argsort_desc toy [[[7]]] [0] = (0, Inl e)) \<and>
   (\<exists>e. modified_beam_search topk_first argsort_desc toy [[[7]]] [0] 3 1 = (0, Inl e))"
  using invalid_input_rejected[of "[[[7]]]" "[0]" argsort_desc toy topk_first 3 1]
  by simp

section \<open>Lists of results and the epilogue\<close>

lemma map_result_Inr:
  "map_result f xs = Inr res \<Longrightarrow> length res = length xs \<and> (\<forall>i<length xs. f (xs ! i) = Inr (res ! i))"
proof (induction xs arbitrary: res)
  case Nil
  then show ?case by simp
next
  case (Cons x xs)
  from Cons.prems obtain y rest where
    fx: "f x = Inr y" and r: "map_result f xs = Inr rest" and res: "res = y # rest"
    by (auto split: sum.splits)
  from Cons.IH[OF r] have ih: "length rest = length xs" "\<forall>i<length xs. f (xs ! i) = Inr (rest ! i)"
    by simp_all
  show ?case
  proof (intro conjI allI impI)
    show "length res = length (x # xs)" using ih(1) res by simp
  next
    fix i assume "i < length (x # xs)"
    then show "f ((x # xs) ! i) = Inr (res ! i)"
      using fx ih res by (cases i) simp_all
  qed
qed

lemma map_result_all_Inr:
  "\<forall>x \<in> set xs. f x = Inr (g x) \<Longrightarrow> map_result f xs = Inr (map g xs)"
  by (induction xs) simp_all

lemma map_result_Inl:
  "map_result f xs = Inl e \<Longrightarrow> \<exists>x \<in> set xs. f x = Inl e"
  by (induction xs) (auto split: sum.splits)

lemma map_result_cong:
  "(\<And>x. x \<in> set xs \<Longrightarrow> f x = g x) \<Longrightarrow> map_result f xs = map_result g xs"
  by (induction xs) (simp_all cong: sum.case_cong)

lemma at_index_Inr: "at_index xs i = Inr x \<longleftrightarrow> i < length xs \<and> x = xs ! i"
  by (auto simp: at_index_def)

lemma unsort_Inr:
  assumes "unsort u N xs = Inr r"
  shows "length r = N \<and> (\<forall>i<N. i < length u \<and> u ! i < length xs \<and> r ! i = xs ! (u ! i))"
proof -
  let ?f = "\<lambda>i. case at_index u i of Inl e \<Rightarrow> Inl e | Inr j \<Rightarrow> at_index xs j"
  from assms have m: "map_result ?f [0..<N] = Inr r" by (simp add: unsort_def)
  from map_result_Inr[OF m] have len: "length r = N"
    and el: "\<forall>i<N. ?f i = Inr (r ! i)" by simp_all
  show ?thesis
  proof (intro conjI allI impI)
    show "length r = N" by (rule len)
  next
    fix i assume "i < N"
    with el have "?f i = Inr (r ! i)" by simp
    then show "i < length u" "u ! i < length xs" "r ! i = xs ! (u ! i)"
      by (auto simp: at_index_def split: sum.splits if_splits)
  qed
qed

lemma make_results_Inr:
  assumes "make_results u N a t s = Inr res"
  shows "length (hyps res) = N \<and> length (timestamps res) = N \<and> length (scores res) = N \<and>
         (\<forall>i<N. i < length u \<and> u ! i < length a \<and> u ! i < length t \<and> u ! i < length s \<and>
                 hyps res ! i = a ! (u ! i) \<and> timestamps res ! i = t ! (u ! i) \<and>
                 scores res ! i = s ! (u ! i))"
proof -
  from assms obtain ra rt rs where
    a: "unsort u N a = Inr ra" and t: "unsort u N t = Inr rt" and s: "unsort u N s = Inr rs"
    and res: "res = \<lparr>timestamps = rt, hyps = ra, scores = rs\<rparr>"
    by (auto simp: make_results_def split: sum.splits)
  show ?thesis
    using unsort_Inr[OF a] unsort_Inr[OF t] unsort_Inr[OF s] res by simp
qed

lemma argmax_from_bound: "bi < i \<Longrightarrow> argmax_from bi bv i vs < i + length vs"
  by (induction bi bv i vs rule: argmax_from.induct) (auto simp: less_Suc_eq)

lemma argmax_less: "argmax xs = Inr v \<Longrightarrow> v < length xs"
proof (cases xs)
  case Nil
  assume "argmax xs = Inr v"
  with Nil show ?thesis by simp
next
  case (Cons x rest)
  assume "argmax xs = Inr v"
  with Cons have "v = argmax_from 0 x 1 rest" by simp
  with argmax_from_bound[of 0 1 x rest] Cons show ?thesis by simp
qed

lemma key_eq_iff: "key h = key h' \<longleftrightarrow> ys h = ys h'"
  using key_inj by (auto simp: key_def)

section \<open>The greedy loop, row by row\<close>

lemma greedy_emit_append:
  "greedy_emit m t lp (xs @ zs) acc =
     (case greedy_emit m t lp xs acc of Inl e \<Rightarrow> Inl e | Inr acc' \<Rightarrow> greedy_emit m t lp zs acc')"
  by (induction m t lp xs acc rule: greedy_emit.induct) auto

lemma zip_upt_snoc: "zip [0..<length (y @ [v])] (y @ [v]) = zip [0..<length y] y @ [(length y, v)]"
  by simp

lemma greedy_emit_char:
  assumes "length hs = n" "length ts = n" "length ss = n"
    and "greedy_emit m t lp (zip [0..<length y] y) (hs, ts, ss, False) = Inr (hs', ts', ss', em)"
  shows "length hs' = n \<and> length ts' = n \<and> length ss' = n \<and>
         (em \<longleftrightarrow> (\<exists>j<length y. \<not> is_sentinel m (int (y ! j)))) \<and>
         (\<forall>j<n. if j < length y \<and> \<not> is_sentinel m (int (y ! j))
                then hs' ! j = hs ! j @ [int (y ! j)] \<and> ts' ! j = ts ! j @ [t] \<and>
                     ss' ! j = ss ! j @ [lp ! j ! (y ! j)]
                else hs' ! j = hs ! j \<and> ts' ! j = ts ! j \<and> ss' ! j = ss ! j)"
  using assms(4)
proof (induction y arbitrary: hs' ts' ss' em rule: rev_induct)
  case Nil
  then show ?case using assms(1-3) by simp
next
  case (snoc v y)
  from snoc.prems obtain h1 t1 s1 e1 where
    first: "greedy_emit m t lp (zip [0..<length y] y) (hs, ts, ss, False) = Inr (h1, t1, s1, e1)"
    and last: "greedy_emit m t lp [(length y, v)] (h1, t1, s1, e1) = Inr (hs', ts', ss', em)"
    by (auto simp: greedy_emit_append split: sum.splits)
  note ih = snoc.IH[OF first]
  show ?case
  proof (cases "is_sentinel m (int v)")
    case True
    with last have eq: "hs' = h1" "ts' = t1" "ss' = s1" "em = e1" by simp_all
    show ?thesis
      using ih True unfolding eq
      by (auto simp: nth_append less_Suc_eq)
  next
    case False
    with last have ok: "length y < length h1" "length y < length t1" "length y < length s1"
      and eq: "hs' = h1[length y := h1 ! length y @ [int v]]"
              "ts' = t1[length y := t1 ! length y @ [t]]"
              "ss' = s1[length y := s1 ! length y @ [lp ! length y ! v]]" "em = True"
      by (auto split: if_splits)
    show ?thesis
      using ih False ok unfolding eq
      by (auto simp: nth_append less_Suc_eq nth_list_update)
  qed
qed


lemma greedy_step_char:
  assumes step: "greedy_step m enc t b st = Inr st'"
    and len: "length (g_hyps st) = n" "length (g_timestamps st) = n" "length (g_scores st) = n"
  defines "cur \<equiv> slice enc (g_offset st) (g_offset st + b)"
    and "dec \<equiv> take b (g_decoder_out st)"
  shows "length cur = length dec"
    and "length (g_hyps st') = n \<and> length (g_timestamps st') = n \<and> length (g_scores st') = n"
    and "g_offset st' = g_offset st + b"
    and "\<forall>j<n. j < length cur \<longrightarrow>
           greedy_row m t (cur ! j) (dec ! j) (g_hyps st ! j, g_timestamps st ! j, g_scores st ! j)
           = Inr (g_hyps st' ! j, g_timestamps st' ! j, g_scores st' ! j)"
    and "\<forall>j<n. \<not> j < length cur \<longrightarrow>
           g_hyps st' ! j = g_hyps st ! j \<and> g_timestamps st' ! j = g_timestamps st ! j \<and>
           g_scores st' ! j = g_scores st ! j"
    and "g_decoder_out st' = dec \<and> g_hyps st' = g_hyps st \<or>
         g_decoder_out st' = decoder_batch m (map (last_n (context_size m)) (take b (g_hyps st')))"
proof -
  from step obtain logits where
    j: "joiner_batch m cur dec = Inr logits"
    by (auto simp: greedy_step_def Let_def cur_def dec_def split: sum.splits)
  then have lcd: "length cur = length dec"
    and logits: "logits = map (\<lambda>(e, d). joiner m e d) (zip cur dec)"
    by (auto simp: joiner_batch_def split: if_splits)
  define lp where "lp = map log_softmax logits"
  from step j obtain y where
    y: "map_result argmax lp = Inr y"
    by (auto simp: greedy_step_def Let_def cur_def dec_def lp_def split: sum.splits)
  from step j y obtain hs' ts' ss' em where
    emit: "greedy_emit m t lp (zip [0..<length y] y)
             (g_hyps st, g_timestamps st, g_scores st, False) = Inr (hs', ts', ss', em)"
    and st': "st' = \<lparr>g_hyps = hs', g_timestamps = ts', g_scores = ss',
                     g_decoder_out = (if em
                        then decoder_batch m (map (last_n (context_size m)) (take b hs'))
                        else dec),
                     g_offset = g_offset st + b,
                     g_calls = g_calls st + 1 + (if em then 2 else 0)\<rparr>"
    by (auto simp: greedy_step_def Let_def cur_def dec_def lp_def split: sum.splits)
  from map_result_Inr[OF y] have ly: "length y = length cur"
    and ay: "\<forall>j<length cur. argmax (lp ! j) = Inr (y ! j)"
    by (simp_all add: lp_def logits lcd)
  note ch = greedy_emit_char[OF len emit]
  have lpj: "\<And>j. j < length cur \<Longrightarrow> lp ! j = log_softmax (joiner m (cur ! j) (dec ! j))"
    by (simp add: lp_def logits lcd)
  have rows: "\<forall>j<n. if j < length cur
                then greedy_row m t (cur ! j) (dec ! j)
                       (g_hyps st ! j, g_timestamps st ! j, g_scores st ! j)
                     = Inr (hs' ! j, ts' ! j, ss' ! j)
                else hs' ! j = g_hyps st ! j \<and> ts' ! j = g_timestamps st ! j \<and>
                     ss' ! j = g_scores st ! j"
  proof (intro allI impI)
    fix j assume jn: "j < n"
    show "if j < length cur
                then greedy_row m t (cur ! j) (dec ! j)
                       (g_hyps st ! j, g_timestamps st ! j, g_scores st ! j)
                     = Inr (hs' ! j, ts' ! j, ss' ! j)
                else hs' ! j = g_hyps st ! j \<and> ts' ! j = g_timestamps st ! j \<and>
                     ss' ! j = g_scores st ! j"
    proof (cases "j < length cur")
      case True
      with ay have a: "argmax (lp ! j) = Inr (y ! j)" by simp
      from ch jn have c: "if j < length y \<and> \<not> is_sentinel m (int (y ! j))
                then hs' ! j = g_hyps st ! j @ [int (y ! j)] \<and> ts' ! j = g_timestamps st ! j @ [t] \<and>
                     ss' ! j = g_scores st ! j @ [lp ! j ! (y ! j)]
                else hs' ! j = g_hyps st ! j \<and> ts' ! j = g_timestamps st ! j \<and> ss' ! j = g_scores st ! j"
        by simp
      show ?thesis
        using True a c ly lpj[OF True]
        by (auto simp: greedy_row_def Let_def)
    next
      case False
      with ch jn ly show ?thesis by auto
    qed
  qed
  have dec_out: "g_decoder_out st' = dec \<and> g_hyps st' = g_hyps st \<or>
          g_decoder_out st' = decoder_batch m (map (last_n (context_size m)) (take b (g_hyps st')))"
  proof (cases em)
    case True
    then show ?thesis by (simp add: st')
  next
    case False
    with ch have none: "\<forall>j<length y. is_sentinel m (int (y ! j))" by auto
    have "hs' = g_hyps st"
    proof (rule nth_equalityI)
      show "length hs' = length (g_hyps st)" using ch len by simp
    next
      fix j assume "j < length hs'"
      with ch have "j < n" by simp
      with ch none show "hs' ! j = g_hyps st ! j" by auto
    qed
    with False show ?thesis by (simp add: st')
  qed
  show "length cur = length dec" by (rule lcd)
  show "length (g_hyps st') = n \<and> length (g_timestamps st') = n \<and> length (g_scores st') = n"
    using ch by (simp add: st')
  show "g_offset st' = g_offset st + b" by (simp add: st')
  show "\<forall>j<n. j < length cur \<longrightarrow>
           greedy_row m t (cur ! j) (dec ! j) (g_hyps st ! j, g_timestamps st ! j, g_scores st ! j)
           = Inr (g_hyps st' ! j, g_timestamps st' ! j, g_scores st' ! j)"
    using rows by (simp add: st')
  show "\<forall>j<n. \<not> j < length cur \<longrightarrow>
           g_hyps st' ! j = g_hyps st ! j \<and> g_timestamps st' ! j = g_timestamps st ! j \<and>
           g_scores st' ! j = g_scores st ! j"
    using rows by (simp add: st')
  show "g_decoder_out st' = dec \<and> g_hyps st' = g_hyps st \<or>
         g_decoder_out st' = decoder_batch m (map (last_n (context_size m)) (take b (g_hyps st')))"
    by (rule dec_out)
qed


lemma row_inv_mono: "row_inv m c t h ts ss \<Longrightarrow> t \<le> t' \<Longrightarrow> row_inv m c t' h ts ss"
  by (auto simp: row_inv_def)

lemma greedy_row_inv:
  assumes "row_inv m c t h ts ss" and "greedy_row m t e d (h, ts, ss) = Inr (h', ts', ss')"
  shows "row_inv m c (Suc t) h' ts' ss'"
proof -
  from assms(2) obtain v where v: "argmax (log_softmax (joiner m e d)) = Inr v"
    by (auto simp: greedy_row_def Let_def split: sum.splits)
  show ?thesis
  proof (cases "is_sentinel m (int v)")
    case True
    with assms(2) v have "h' = h" "ts' = ts" "ss' = ss" by (simp_all add: greedy_row_def Let_def)
    with assms(1) show ?thesis by (auto simp: row_inv_def)
  next
    case False
    with assms(2) v have eq: "h' = h @ [int v]" "ts' = ts @ [t]"
      "ss' = ss @ [log_softmax (joiner m e d) ! v]"
      by (simp_all add: greedy_row_def Let_def)
    from assms(1) have "c \<le> length h" by (simp add: row_inv_def)
    then have "drop c (h @ [int v]) = drop c h @ [int v]" by simp
    with assms(1) False show ?thesis
      unfolding eq by (auto simp: row_inv_def sorted_wrt_append)
  qed
qed

lemma greedy_step_inv:
  assumes step: "greedy_step m enc t b st = Inr st'"
    and len: "length (g_hyps st) = n" "length (g_timestamps st) = n" "length (g_scores st) = n"
    and inv: "\<forall>j<n. row_inv m c t (g_hyps st ! j) (g_timestamps st ! j) (g_scores st ! j)"
  shows "length (g_hyps st') = n \<and> length (g_timestamps st') = n \<and> length (g_scores st') = n \<and>
         (\<forall>j<n. row_inv m c (Suc t) (g_hyps st' ! j) (g_timestamps st' ! j) (g_scores st' ! j))"
proof -
  note ch = greedy_step_char[OF step len]
  have "\<forall>j<n. row_inv m c (Suc t) (g_hyps st' ! j) (g_timestamps st' ! j) (g_scores st' ! j)"
  proof (intro allI impI)
    fix j assume jn: "j < n"
    with inv have i: "row_inv m c t (g_hyps st ! j) (g_timestamps st ! j) (g_scores st ! j)" by simp
    show "row_inv m c (Suc t) (g_hyps st' ! j) (g_timestamps st' ! j) (g_scores st' ! j)"
    proof (cases "j < length (slice enc (g_offset st) (g_offset st + b))")
      case True
      with ch(4) jn have "greedy_row m t (slice enc (g_offset st) (g_offset st + b) ! j)
                         (take b (g_decoder_out st) ! j)
                         (g_hyps st ! j, g_timestamps st ! j, g_scores st ! j)
                       = Inr (g_hyps st' ! j, g_timestamps st' ! j, g_scores st' ! j)"
        by blast
      from greedy_row_inv[OF i this] show ?thesis .
    next
      case False
      with ch(5) jn have "g_hyps st' ! j = g_hyps st ! j" "g_timestamps st' ! j = g_timestamps st ! j"
        "g_scores st' ! j = g_scores st ! j" by blast+
      with row_inv_mono[OF i, of "Suc t"] show ?thesis by simp
    qed
  qed
  with ch(2) show ?thesis by simp
qed

lemma greedy_loop_inv:
  assumes "greedy_loop m enc t bs st = Inr st'"
    and "length (g_hyps st) = n" "length (g_timestamps st) = n" "length (g_scores st) = n"
    and "\<forall>j<n. row_inv m c t (g_hyps st ! j) (g_timestamps st ! j) (g_scores st ! j)"
  shows "length (g_hyps st') = n \<and> length (g_timestamps st') = n \<and> length (g_scores st') = n \<and>
         (\<forall>j<n. row_inv m c (t + length bs) (g_hyps st' ! j) (g_timestamps st' ! j) (g_scores st' ! j))"
  using assms
proof (induction bs arbitrary: t st)
  case Nil
  then show ?case by simp
next
  case (Cons b bs)
  from Cons.prems(1) obtain st1 where
    s1: "greedy_step m enc t b st = Inr st1" and l1: "greedy_loop m enc (Suc t) bs st1 = Inr st'"
    by (auto split: sum.splits)
  from greedy_step_inv[OF s1 Cons.prems(2-5)]
  have i1: "length (g_hyps st1) = n" "length (g_timestamps st1) = n" "length (g_scores st1) = n"
    "\<forall>j<n. row_inv m c (Suc t) (g_hyps st1 ! j) (g_timestamps st1 ! j) (g_scores st1 ! j)"
    by simp_all
  from Cons.IH[OF l1 i1] show ?case by simp
qed

lemma greedy_search_batch_rows:
  assumes run: "greedy_search_batch sort_desc m encoder_out encoder_out_lens = (calls, Inr res)"
    and c: "0 < context_size m"
  shows "length (hyps res) = length encoder_out \<and> length (timestamps res) = length encoder_out \<and>
         length (scores res) = length encoder_out \<and>
         (\<forall>i<length encoder_out. \<exists>h t.
            row_inv m (context_size m) t h (timestamps res ! i) (scores res ! i) \<and>
            hyps res ! i = drop (context_size m) h)"
proof -
  define N where "N = length encoder_out"
  define hyps0 where "hyps0 = replicate N (replicate (context_size m - 1) (- 1) @ [blank_id m])"
  from run obtain packed st where
    p: "pack_padded_sequence sort_desc encoder_out encoder_out_lens = Inr packed"
    and loop: "greedy_loop m (map (encoder_proj m) (data packed)) 0 (batch_sizes packed)
                \<lparr>g_hyps = hyps0, g_timestamps = replicate N [], g_scores = replicate N [],
                 g_decoder_out = decoder_batch m hyps0, g_offset = 0, g_calls = 3\<rparr> = Inr st"
    and res: "make_results (unsorted_indices packed) N
                (map (drop (context_size m)) (g_hyps st)) (g_timestamps st) (g_scores st) = Inr res"
    by (auto simp: greedy_search_batch_def Let_def N_def hyps0_def split: sum.splits if_splits prod.splits)
  have inv0: "\<forall>j<N. row_inv m (context_size m) 0 (hyps0 ! j) (replicate N [] ! j) (replicate N [] ! j)"
    using c by (simp add: row_inv_def hyps0_def)
  from greedy_loop_inv[OF loop _ _ _ , of N "context_size m"] inv0
  have l: "length (g_hyps st) = N" "length (g_timestamps st) = N" "length (g_scores st) = N"
    and inv: "\<forall>j<N. row_inv m (context_size m) (0 + length (batch_sizes packed))
                (g_hyps st ! j) (g_timestamps st ! j) (g_scores st ! j)"
    by (simp_all add: hyps0_def)
  note mr = make_results_Inr[OF res]
  show ?thesis
  proof (intro conjI allI impI)
    fix i assume "i < length encoder_out"
    then have iN: "i < N" by (simp add: N_def)
    with mr have u: "unsorted_indices packed ! i < N"
      and e: "hyps res ! i = map (drop (context_size m)) (g_hyps st) ! (unsorted_indices packed ! i)"
        "timestamps res ! i = g_timestamps st ! (unsorted_indices packed ! i)"
        "scores res ! i = g_scores st ! (unsorted_indices packed ! i)"
      using l by simp_all
    from inv u have "row_inv m (context_size m) (0 + length (batch_sizes packed))
                (g_hyps st ! (unsorted_indices packed ! i)) (timestamps res ! i) (scores res ! i)"
      using e by simp
    moreover have "hyps res ! i = drop (context_size m) (g_hyps st ! (unsorted_indices packed ! i))"
      using e(1) u l by simp
    ultimately show "\<exists>h t. row_inv m (context_size m) t h (timestamps res ! i) (scores res ! i) \<and>
            hyps res ! i = drop (context_size m) h" by blast
  qed (use mr in \<open>simp_all add: N_def\<close>)
qed

section \<open>The beam search keeps its invariants\<close>

lemma merge_entry_keys: "map fst (merge_entry k p B) = map fst B"
  by (induction k p B rule: merge_entry.induct) auto

lemma merge_entry_set:
  "(k', h') \<in> set (merge_entry k p B) \<Longrightarrow> \<exists>h q. (k', h) \<in> set B \<and> h' = h\<lparr>log_prob := q\<rparr>"
proof (induction k p B rule: merge_entry.induct)
  case (1 k p)
  then show ?case by simp
next
  case (2 k p k0 old rest)
  show ?case
  proof (cases "k0 = k")
    case True
    with 2(2) have "(k', h') = (k0, old\<lparr>log_prob := logaddexp (log_prob old) p\<rparr>) \<or> (k', h') \<in> set rest"
      by simp
    then show ?thesis
    proof
      assume "(k', h') = (k0, old\<lparr>log_prob := logaddexp (log_prob old) p\<rparr>)"
      then show ?thesis by auto
    next
      assume "(k', h') \<in> set rest"
      then have "(k', h') \<in> set ((k0, old) # rest) \<and> h' = h'\<lparr>log_prob := log_prob h'\<rparr>" by simp
      then show ?thesis by blast
    qed
  next
    case False
    with 2(2) have "(k', h') = (k0, old) \<or> (k', h') \<in> set (merge_entry k p rest)" by simp
    then show ?thesis
    proof
      assume "(k', h') = (k0, old)"
      then have "(k', h') \<in> set ((k0, old) # rest) \<and> h' = h'\<lparr>log_prob := log_prob h'\<rparr>" by simp
      then show ?thesis by blast
    next
      assume "(k', h') \<in> set (merge_entry k p rest)"
      from 2(1)[OF False this] show ?thesis by auto
    qed
  qed
qed

lemma key_log_prob_update [simp]: "key (h\<lparr>log_prob := q\<rparr>) = key h"
  by (simp add: key_def)

lemma hyp_inv_log_prob_update [simp]: "hyp_inv m t (h\<lparr>log_prob := q\<rparr>) = hyp_inv m t h"
  by (simp add: hyp_inv_def)

lemma hyp_inv_mono: "hyp_inv m t h \<Longrightarrow> t \<le> t' \<Longrightarrow> hyp_inv m t' h"
  unfolding hyp_inv_def by (rule row_inv_mono)

lemma hyps_inv_mono: "hyps_inv m t B \<Longrightarrow> t \<le> t' \<Longrightarrow> hyps_inv m t' B"
  unfolding hyps_inv_def using hyp_inv_mono by fastforce

lemma hyps_inv_empty: "hyps_inv m t []"
  by (simp add: hyps_inv_def)

lemma add_hyps_inv:
  assumes "hyps_inv m t B" "hyp_inv m t h"
  shows "hyps_inv m t (add B h)"
proof (cases "contains B (key h)")
  case True
  then have a: "add B h = merge_entry (key h) (log_prob h) B" by (simp add: add_def)
  have "\<forall>(k', h') \<in> set (merge_entry (key h) (log_prob h) B). k' = key h' \<and> hyp_inv m t h'"
  proof (clarify)
    fix k' h' assume "(k', h') \<in> set (merge_entry (key h) (log_prob h) B)"
    from merge_entry_set[OF this] obtain h0 q where "(k', h0) \<in> set B" "h' = h0\<lparr>log_prob := q\<rparr>"
      by blast
    with assms(1) show "k' = key h' \<and> hyp_inv m t h'" by (auto simp: hyps_inv_def)
  qed
  with assms(1) show ?thesis by (simp add: a hyps_inv_def merge_entry_keys)
next
  case False
  then have a: "add B h = B @ [(key h, h)]" by (simp add: add_def)
  from False assms show ?thesis by (auto simp: a hyps_inv_def contains_def)
qed

lemma new_hypothesis_inv:
  assumes "\<forall>h \<in> set A_i. hyp_inv m t h"
    and "new_hypothesis m t V A_i cur tlp tix k = Inr h'"
  shows "hyp_inv m (Suc t) h'"
proof -
  from assms(2) obtain idx hyp where
    idx: "at_index tix k = Inr idx" and hyp: "at_index A_i (idx div V) = Inr hyp"
    by (auto simp: new_hypothesis_def Let_def split: sum.splits)
  from hyp have "hyp \<in> set A_i" by (auto simp: at_index_def split: if_splits)
  with assms(1) have inv: "hyp_inv m t hyp" by simp
  then have cl: "context_size m \<le> length (ys hyp)" by (simp add: hyp_inv_def row_inv_def)
  show ?thesis
  proof (cases "is_sentinel m (int (idx mod V))")
    case True
    with assms(2) idx hyp have "ys h' = ys hyp" "timestamp h' = timestamp hyp" "hyp_scores h' = hyp_scores hyp"
      by (auto simp: new_hypothesis_def Let_def split: sum.splits)
    with inv show ?thesis by (auto simp: hyp_inv_def row_inv_def)
  next
    case False
    with assms(2) idx hyp obtain s where
      "ys h' = ys hyp @ [int (idx mod V)]" "timestamp h' = timestamp hyp @ [t]"
      "hyp_scores h' = hyp_scores hyp @ [s]"
      by (auto simp: new_hypothesis_def Let_def split: sum.splits)
    with inv False cl show ?thesis
      by (auto simp: hyp_inv_def row_inv_def sorted_wrt_append)
  qed
qed

lemma merged_with_ok:
  assumes "hyps_inv m t B" "hyp_inv m t h"
  shows "\<forall>p \<in> set (merged_with B h). merge_ok p"
proof (cases "getitem B (key h)")
  case None
  then show ?thesis by (simp add: merged_with_def)
next
  case (Some old)
  then have "(key h, old) \<in> set B" by (simp add: getitem_def map_of_SomeD)
  with assms(1) have k: "key h = key old" and io: "hyp_inv m t old" by (auto simp: hyps_inv_def)
  from k have "ys old = ys h" by (simp add: key_eq_iff)
  with io assms(2) have "merge_ok (old, h)"
    by (auto simp: merge_ok_def hyp_inv_def row_inv_def)
  with Some show ?thesis by (simp add: merged_with_def)
qed

lemma beam_add_all_inv:
  assumes "\<forall>h \<in> set A_i. hyp_inv m t h"
    and "hyps_inv m (Suc t) B" "\<forall>p \<in> set mg. merge_ok p"
    and "beam_add_all m t V A_i cur tlp tix ks (B, mg) = Inr (B', mg')"
  shows "hyps_inv m (Suc t) B' \<and> (\<forall>p \<in> set mg'. merge_ok p)"
  using assms(2-4)
proof (induction ks arbitrary: B mg)
  case Nil
  then show ?case by simp
next
  case (Cons k ks)
  from Cons.prems(3) obtain nh where
    nh: "new_hypothesis m t V A_i cur tlp tix k = Inr nh"
    and rest: "beam_add_all m t V A_i cur tlp tix ks (add B nh, mg @ merged_with B nh) = Inr (B', mg')"
    by (auto split: sum.splits)
  from new_hypothesis_inv[OF assms(1) nh] have i: "hyp_inv m (Suc t) nh" .
  have a: "hyps_inv m (Suc t) (add B nh)" by (rule add_hyps_inv[OF Cons.prems(1) i])
  have b: "\<forall>p \<in> set (mg @ merged_with B nh). merge_ok p"
    using Cons.prems(2) merged_with_ok[OF Cons.prems(1) i] by auto
  from Cons.IH[OF a b rest] show ?case .
qed

lemma beam_utterance_inv:
  assumes "i < length A \<Longrightarrow> \<forall>h \<in> set (A ! i). hyp_inv m t h"
    and "beam_utterance topk m t beam V lp lpt rs A i = Inr (B', mg')"
  shows "hyps_inv m (Suc t) B' \<and> (\<forall>p \<in> set mg'. merge_ok p)"
proof -
  from assms(2) obtain lo hi where
    lo: "at_index rs i = Inr lo" and hi: "at_index rs (i + 1) = Inr hi"
    by (auto simp: beam_utterance_def split: sum.splits)
  obtain tlp tix where tk: "topk beam (slice lp lo hi) = (tlp, tix)" by (cases "topk beam (slice lp lo hi)")
  from assms(2) lo hi tk obtain A_i where
    ai: "at_index A i = Inr A_i"
    and ba: "beam_add_all m t V A_i (slice lpt lo hi) tlp tix [0..<length tix] ([], []) = Inr (B', mg')"
    by (auto simp: beam_utterance_def Let_def split: sum.splits if_splits)
  from ai have "i < length A" "A_i = A ! i" by (auto simp: at_index_def split: if_splits)
  with assms(1) have "\<forall>h \<in> set A_i. hyp_inv m t h" by simp
  from beam_add_all_inv[OF this hyps_inv_empty _ ba] show ?thesis by simp
qed

lemma beam_step_inv:
  assumes inv: "beam_inv m t st"
    and step: "beam_step topk m enc beam temp t b st = Inr st'"
  shows "beam_inv m (Suc t) st' \<and>
         length (b_B st') + length (b_finalized st') = length (b_B st) + length (b_finalized st)"
proof -
  define A where "A = map dict_values (take b (b_B st))"
  from step obtain V lp lpt rs results where
    mr: "map_result (beam_utterance topk m t beam V lp lpt rs A) [0..<b] = Inr results"
    and st': "st' = \<lparr>b_B = map fst results, b_finalized = drop b (b_B st) @ b_finalized st,
                     b_offset = b_offset st + b, b_calls = b_calls st + 3,
                     b_merged = b_merged st @ concat (map snd results)\<rparr>"
    by (auto simp: beam_step_def Let_def A_def split: sum.splits if_splits)
  from map_result_Inr[OF mr] have lr: "length results = b"
    and el: "\<forall>i<b. beam_utterance topk m t beam V lp lpt rs A i = Inr (results ! i)"
    by simp_all
  have Ainv: "\<And>i. i < length A \<Longrightarrow> \<forall>h \<in> set (A ! i). hyp_inv m t h"
  proof -
    fix i assume i: "i < length A"
    then have "b_B st ! i \<in> set (b_B st)" by (simp add: A_def)
    with inv have "hyps_inv m t (b_B st ! i)" by (simp add: beam_inv_def)
    moreover have "A ! i = dict_values (b_B st ! i)" using i by (simp add: A_def)
    ultimately show "\<forall>h \<in> set (A ! i). hyp_inv m t h"
      by (fastforce simp: hyps_inv_def dict_values_def)
  qed
  have each: "\<forall>i<b. hyps_inv m (Suc t) (fst (results ! i)) \<and> (\<forall>p \<in> set (snd (results ! i)). merge_ok p)"
  proof (intro allI impI)
    fix i assume "i < b"
    with el have "beam_utterance topk m t beam V lp lpt rs A i = Inr (fst (results ! i), snd (results ! i))"
      by simp
    from beam_utterance_inv[OF Ainv this] 
    show "hyps_inv m (Suc t) (fst (results ! i)) \<and> (\<forall>p \<in> set (snd (results ! i)). merge_ok p)" by simp
  qed
  have bB: "b \<le> length (b_B st)"
  proof (cases "b = 0")
    case True then show ?thesis by simp
  next
    case False
    then have "b - 1 < b" by simp
    with el have "beam_utterance topk m t beam V lp lpt rs A (b - 1) = Inr (results ! (b - 1))" by blast
    then have "b - 1 < length A"
      by (auto simp: beam_utterance_def Let_def at_index_def split: sum.splits if_splits prod.splits)
    with False show ?thesis by (simp add: A_def)
  qed
  have new: "\<forall>B \<in> set (map fst results). hyps_inv m (Suc t) B"
  proof
    fix B assume "B \<in> set (map fst results)"
    then obtain i where "i < length results" "B = fst (results ! i)"
      by (auto simp: in_set_conv_nth)
    with each lr show "hyps_inv m (Suc t) B" by simp
  qed
  have old: "\<forall>B \<in> set (drop b (b_B st) @ b_finalized st). hyps_inv m (Suc t) B"
  proof
    fix B assume "B \<in> set (drop b (b_B st) @ b_finalized st)"
    then have "B \<in> set (b_B st @ b_finalized st)" by (auto dest: in_set_dropD)
    with inv have "hyps_inv m t B" by (simp add: beam_inv_def)
    then show "hyps_inv m (Suc t) B" by (rule hyps_inv_mono) simp
  qed
  have mg: "\<forall>p \<in> set (b_merged st @ concat (map snd results)). merge_ok p"
  proof
    fix p assume "p \<in> set (b_merged st @ concat (map snd results))"
    then have "p \<in> set (b_merged st) \<or> (\<exists>r \<in> set results. p \<in> set (snd r))"
      by auto
    then consider "p \<in> set (b_merged st)" | i where "i < length results" "p \<in> set (snd (results ! i))"
      by (metis in_set_conv_nth)
    then show "merge_ok p"
    proof cases
      case 1
      with inv show ?thesis by (simp add: beam_inv_def)
    next
      case 2
      with each lr show ?thesis by auto
    qed
  qed
  show ?thesis
    using new old mg lr bB by (auto simp: st' beam_inv_def)
qed

lemma beam_loop_inv:
  assumes "beam_inv m t st"
    and "beam_loop topk m enc beam temp t bs st = Inr st'"
  shows "beam_inv m (t + length bs) st' \<and>
         length (b_B st') + length (b_finalized st') = length (b_B st) + length (b_finalized st)"
  using assms
proof (induction bs arbitrary: t st)
  case Nil
  then show ?case by simp
next
  case (Cons b bs)
  from Cons.prems(2) obtain st1 where
    s1: "beam_step topk m enc beam temp t b st = Inr st1"
    and l1: "beam_loop topk m enc beam temp (Suc t) bs st1 = Inr st'"
    by (auto split: sum.splits)
  from beam_step_inv[OF Cons.prems(1) s1] have i1: "beam_inv m (Suc t) st1"
    and n1: "length (b_B st1) + length (b_finalized st1) = length (b_B st) + length (b_finalized st)"
    by simp_all
  from Cons.IH[OF i1 l1] n1 show ?case by simp
qed

lemma initial_hyps_inv: "hyps_inv m 0 (add [] (initial_hypothesis m))"
  by (simp add: add_def contains_def hyps_inv_def hyp_inv_def row_inv_def initial_hypothesis_def)

lemma beam_search_loop_Inr:
  "beam_search_loop topk sort_desc m encoder_out encoder_out_lens beam temperature
     = (calls, Inr (unsorted, st)) \<longleftrightarrow>
   (\<exists>packed. encoder_out \<noteq> [] \<and>
      pack_padded_sequence sort_desc encoder_out encoder_out_lens = Inr packed \<and>
      (\<forall>l \<in> set encoder_out_lens. 0 < l) \<and> batch_sizes packed \<noteq> [] \<and>
      length encoder_out = hd (batch_sizes packed) \<and>
      beam_loop topk m (map (encoder_proj m) (data packed)) beam temperature 0 (batch_sizes packed)
        \<lparr>b_B = replicate (length encoder_out) (add [] (initial_hypothesis m)), b_finalized = [],
         b_offset = 0, b_calls = 1, b_merged = []\<rparr> = Inr st \<and>
      calls = b_calls st \<and> unsorted = unsorted_indices packed)"
proof (cases "pack_padded_sequence sort_desc encoder_out encoder_out_lens")
  case (Inl e)
  then show ?thesis by (simp add: beam_search_loop_def)
next
  case (Inr packed)
  show ?thesis
  proof (cases "encoder_out \<noteq> [] \<and> (\<forall>l \<in> set encoder_out_lens. 0 < l) \<and> batch_sizes packed \<noteq> []
                \<and> length encoder_out = hd (batch_sizes packed)")
    case False
    with Inr show ?thesis
      by (auto simp: beam_search_loop_def Let_def Suc_le_eq)
  next
    case True
    then have c: "1 \<le> length encoder_out" by (cases encoder_out) simp_all
    let ?st0 = "\<lparr>b_B = replicate (length encoder_out) (add [] (initial_hypothesis m)),
                 b_finalized = [], b_offset = 0, b_calls = 1, b_merged = []\<rparr>"
    have "beam_search_loop topk sort_desc m encoder_out encoder_out_lens beam temperature =
          (case beam_loop topk m (map (encoder_proj m) (data packed)) beam temperature 0
                  (batch_sizes packed) ?st0 of
             Inl (e, calls) \<Rightarrow> (calls, Inl e)
           | Inr st \<Rightarrow> (b_calls st, Inr (unsorted_indices packed, st)))"
      using True c Inr unfolding beam_search_loop_def Let_def by simp
    then show ?thesis using True Inr
      by (auto split: sum.splits prod.splits)
  qed
qed

lemma beam_search_loop_inv:
  assumes "beam_search_loop topk sort_desc m encoder_out encoder_out_lens beam temperature
           = (calls, Inr (unsorted, st))"
  shows "\<exists>t. beam_inv m t st" and "length (b_B st @ b_finalized st) = length encoder_out"
proof -
  define st0 where "st0 = \<lparr>b_B = replicate (length encoder_out) (add [] (initial_hypothesis m)),
                           b_finalized = [], b_offset = 0, b_calls = 1, b_merged = []\<rparr>"
  from assms[unfolded beam_search_loop_Inr] obtain packed where
    "pack_padded_sequence sort_desc encoder_out encoder_out_lens = Inr packed"
    and loop: "beam_loop topk m (map (encoder_proj m) (data packed)) beam temperature 0
             (batch_sizes packed) st0 = Inr st"
    unfolding st0_def by blast
  have "beam_inv m 0 st0" using initial_hyps_inv[of m] by (simp add: beam_inv_def st0_def)
  from beam_loop_inv[OF this loop] show "\<exists>t. beam_inv m t st"
    and "length (b_B st @ b_finalized st) = length encoder_out"
    by (auto simp: st0_def)
qed

section \<open>Adding to a hypothesis list\<close>

lemma contains_getitem: "contains B k \<longleftrightarrow> getitem B k \<noteq> None"
  by (simp add: contains_def getitem_def map_of_eq_None_iff)

lemma getitem_merge_entry_same:
  "getitem B k = Some old \<Longrightarrow>
   getitem (merge_entry k p B) k = Some (old\<lparr>log_prob := logaddexp (log_prob old) p\<rparr>)"
  by (induction k p B rule: merge_entry.induct) (auto simp: getitem_def)

lemma getitem_merge_entry_other:
  "k' \<noteq> k \<Longrightarrow> getitem (merge_entry k p B) k' = getitem B k'"
  by (induction k p B rule: merge_entry.induct) (auto simp: getitem_def)

lemma getitem_add_merge:
  "getitem B (key h) = Some old \<Longrightarrow>
   getitem (add B h) (key h) = Some (old\<lparr>log_prob := logaddexp (log_prob old) (log_prob h)\<rparr>)"
  by (simp add: add_def contains_getitem getitem_merge_entry_same)

lemma add_absent: "getitem B (key h) = None \<Longrightarrow> add B h = B @ [(key h, h)]"
  by (simp add: add_def contains_getitem)

lemma getitem_add_absent: "getitem B (key h) = None \<Longrightarrow> getitem (add B h) (key h) = Some h"
  by (simp add: add_absent) (simp add: getitem_def map_add_Some_iff)

lemma getitem_add_other: "k \<noteq> key h \<Longrightarrow> getitem (add B h) k = getitem B k"
proof (cases "contains B (key h)")
  case True
  assume "k \<noteq> key h"
  with True show ?thesis by (simp add: add_def getitem_merge_entry_other)
next
  case False
  assume "k \<noteq> key h"
  with False show ?thesis
    by (simp add: add_def getitem_def map_add_def split: option.splits)
qed

lemma add_keys_merge: "getitem B (key h) = Some old \<Longrightarrow> map fst (add B h) = map fst B"
  by (simp add: add_def contains_getitem merge_entry_keys)

lemma getitem_foldl_add_other:
  "\<forall>h \<in> set hs. key h \<noteq> k \<Longrightarrow> getitem (foldl add B hs) k = getitem B k"
proof (induction hs arbitrary: B)
  case Nil
  then show ?case by simp
next
  case (Cons h hs)
  then have "getitem (foldl add (add B h) hs) k = getitem (add B h) k" by simp
  moreover from Cons.prems have "k \<noteq> key h" by auto
  ultimately show ?case by (simp add: getitem_add_other)
qed

lemma beam_add_all_foldl:
  assumes "beam_add_all m t V A_i cur tlp tix ks (B, mg) = Inr (B', mg')"
  shows "\<exists>nhs. map_result (new_hypothesis m t V A_i cur tlp tix) ks = Inr nhs \<and> B' = foldl add B nhs"
  using assms
proof (induction ks arbitrary: B mg)
  case Nil
  then show ?case by simp
next
  case (Cons k ks)
  from Cons.prems obtain nh where
    nh: "new_hypothesis m t V A_i cur tlp tix k = Inr nh"
    and rest: "beam_add_all m t V A_i cur tlp tix ks (add B nh, mg @ merged_with B nh) = Inr (B', mg')"
    by (auto split: sum.splits)
  from Cons.IH[OF rest] obtain nhs where
    "map_result (new_hypothesis m t V A_i cur tlp tix) ks = Inr nhs" "B' = foldl add (add B nh) nhs"
    by blast
  with nh show ?case by simp
qed

lemma two_paths_merge:
  assumes nhs: "k1 < k2" "k2 < length nhs"
    and same: "key (nhs ! k1) = key (nhs ! k2)"
    and others: "\<forall>k<length nhs. k \<noteq> k1 \<longrightarrow> k \<noteq> k2 \<longrightarrow> key (nhs ! k) \<noteq> key (nhs ! k1)"
  shows "getitem (foldl add [] nhs) (key (nhs ! k1)) =
         Some ((nhs ! k1)\<lparr>log_prob := logaddexp (log_prob (nhs ! k1)) (log_prob (nhs ! k2))\<rparr>)"
proof -
  define K where "K = key (nhs ! k1)"
  define pre where "pre = take k1 nhs"
  define mid where "mid = take (k2 - Suc k1) (drop (Suc k1) nhs)"
  define post where "post = drop (Suc k2) nhs"
  have split: "nhs = pre @ nhs ! k1 # mid @ nhs ! k2 # post"
  proof -
    have a: "nhs = pre @ nhs ! k1 # drop (Suc k1) nhs"
      unfolding pre_def using nhs by (simp add: id_take_nth_drop)
    have b: "drop (Suc k1) nhs = mid @ drop (k2 - Suc k1) (drop (Suc k1) nhs)"
      unfolding mid_def by (rule append_take_drop_id[symmetric])
    have c: "drop (k2 - Suc k1) (drop (Suc k1) nhs) = drop k2 nhs"
      using nhs by simp
    have d: "drop k2 nhs = nhs ! k2 # post"
      unfolding post_def using nhs by (simp add: Cons_nth_drop_Suc)
    from b c d have "drop (Suc k1) nhs = mid @ nhs ! k2 # post" by (simp only:)
    with a show ?thesis by (simp only:)
  qed
  have pre: "\<forall>h \<in> set pre. key h \<noteq> K"
  proof
    fix h assume "h \<in> set pre"
    then obtain j where "j < k1" "j < length nhs" "h = nhs ! j"
      by (auto simp: pre_def in_set_conv_nth)
    with others nhs show "key h \<noteq> K" by (simp add: K_def)
  qed
  have mid: "\<forall>h \<in> set mid. key h \<noteq> K"
  proof
    fix h assume "h \<in> set mid"
    then obtain j where j: "j < k2 - Suc k1" "h = drop (Suc k1) nhs ! j"
      by (auto simp: mid_def in_set_conv_nth)
    then have "h = nhs ! (Suc k1 + j)" using nhs by simp
    moreover have "Suc k1 + j < length nhs" "Suc k1 + j \<noteq> k1" "Suc k1 + j \<noteq> k2"
      using j nhs by simp_all
    ultimately show "key h \<noteq> K" using others by (simp add: K_def)
  qed
  have post: "\<forall>h \<in> set post. key h \<noteq> K"
  proof
    fix h assume "h \<in> set post"
    then obtain j where j: "j < length nhs - Suc k2" "h = drop (Suc k2) nhs ! j"
      by (auto simp: post_def in_set_conv_nth)
    then have "h = nhs ! (Suc k2 + j)" using nhs by simp
    moreover have "Suc k2 + j < length nhs" "Suc k2 + j \<noteq> k1" "Suc k2 + j \<noteq> k2"
      using j nhs by simp_all
    ultimately show "key h \<noteq> K" using others by (simp add: K_def)
  qed
  have k2K: "key (nhs ! k2) = K" using same by (simp add: K_def)
  let ?B1 = "foldl add [] pre"
  have 1: "getitem ?B1 K = None"
    using getitem_foldl_add_other[OF pre, of "[]"] by (simp add: getitem_def)
  let ?B2 = "add ?B1 (nhs ! k1)"
  have 2: "getitem ?B2 K = Some (nhs ! k1)"
    using getitem_add_absent[of ?B1 "nhs ! k1"] 1 by (simp add: K_def)
  let ?B3 = "foldl add ?B2 mid"
  have 3: "getitem ?B3 K = Some (nhs ! k1)"
    using getitem_foldl_add_other[OF mid, of ?B2] 2 by simp
  let ?B4 = "add ?B3 (nhs ! k2)"
  have 4: "getitem ?B4 K =
           Some ((nhs ! k1)\<lparr>log_prob := logaddexp (log_prob (nhs ! k1)) (log_prob (nhs ! k2))\<rparr>)"
    using getitem_add_merge[of ?B3 "nhs ! k2" "nhs ! k1"] 3 k2K by simp
  have "foldl add [] nhs = foldl add ?B4 post"
    by (subst split) simp
  then have "getitem (foldl add [] nhs) K = getitem ?B4 K"
    using getitem_foldl_add_other[OF post, of ?B4] by simp
  with 4 show ?thesis by (simp add: K_def)
qed

section \<open>The selection of the best hypothesis and the results\<close>

lemma py_max_key_first:
  assumes "py_max_key f xs = Inr r"
  shows "\<exists>i<length xs. xs ! i = r \<and> (\<forall>j<length xs. f (xs ! j) \<le> f r) \<and> (\<forall>j<i. f (xs ! j) < f r)"
proof -
  from assms obtain x rest where xs: "xs = x # rest"
    and r: "r = foldl (\<lambda>best y. if f best < f y then y else best) x rest"
    by (cases xs) auto
  have "\<exists>i<length (x # rest). (x # rest) ! i = foldl (\<lambda>best y. if f best < f y then y else best) x rest \<and>
          (\<forall>j<length (x # rest). f ((x # rest) ! j) \<le> f (foldl (\<lambda>best y. if f best < f y then y else best) x rest)) \<and>
          (\<forall>j<i. f ((x # rest) ! j) < f (foldl (\<lambda>best y. if f best < f y then y else best) x rest))"
  proof (induction rest rule: rev_induct)
    case Nil
    then show ?case by simp
  next
    case (snoc y rest)
    let ?b = "foldl (\<lambda>best y. if f best < f y then y else best) x rest"
    from snoc obtain i where i: "i < length (x # rest)" "(x # rest) ! i = ?b"
      "\<forall>j<length (x # rest). f ((x # rest) ! j) \<le> f ?b" "\<forall>j<i. f ((x # rest) ! j) < f ?b"
      by blast
    show ?case
    proof (cases "f ?b < f y")
      case True
      have "(x # rest @ [y]) ! length (x # rest) = y"
        by (metis append_Cons nth_append_length)
      moreover have "\<forall>j<length (x # rest @ [y]). f ((x # rest @ [y]) ! j) \<le> f y"
      proof (intro allI impI)
        fix j assume "j < length (x # rest @ [y])"
        then have "j < length (x # rest) \<or> j = length (x # rest)" by auto
        then show "f ((x # rest @ [y]) ! j) \<le> f y"
        proof
          assume a: "j < length (x # rest)"
          then have "(x # rest @ [y]) ! j = (x # rest) ! j"
            by (metis append_Cons nth_append)
          with i(3) a True show ?thesis by fastforce
        next
          assume "j = length (x # rest)"
          then show ?thesis using calculation by simp
        qed
      qed
      moreover have "\<forall>j<length (x # rest). f ((x # rest @ [y]) ! j) < f y"
      proof (intro allI impI)
        fix j assume a: "j < length (x # rest)"
        then have "(x # rest @ [y]) ! j = (x # rest) ! j"
          by (metis append_Cons nth_append)
        with i(3) a True show "f ((x # rest @ [y]) ! j) < f y" by fastforce
      qed
      ultimately show ?thesis using True
        by (intro exI[of _ "length (x # rest)"]) simp
    next
      case False
      have e: "\<And>j. j < length (x # rest) \<Longrightarrow> (x # rest @ [y]) ! j = (x # rest) ! j"
        by (metis append_Cons nth_append)
      have "\<forall>j<length (x # rest @ [y]). f ((x # rest @ [y]) ! j) \<le> f ?b"
      proof (intro allI impI)
        fix j assume "j < length (x # rest @ [y])"
        then have "j < length (x # rest) \<or> j = length (x # rest)" by auto
        then show "f ((x # rest @ [y]) ! j) \<le> f ?b"
        proof
          assume a: "j < length (x # rest)"
          with i(3) e show ?thesis by simp
        next
          assume "j = length (x # rest)"
          then have "(x # rest @ [y]) ! j = y" by (metis append_Cons nth_append_length)
          with False show ?thesis by simp
        qed
      qed
      moreover have "\<forall>j<i. f ((x # rest @ [y]) ! j) < f ?b"
        using i(1,4) e by simp
      moreover have "(x # rest @ [y]) ! i = ?b" using i(1,2) e by simp
      ultimately show ?thesis using False i(1)
        by (intro exI[of _ i]) simp
    qed
  qed
  then show ?thesis by (simp only: xs r)
qed

lemma get_most_probable_first:
  assumes "get_most_probable True B = Inr h"
  shows "\<exists>i<length B. snd (B ! i) = h \<and>
           (\<forall>j<length B. log_prob (snd (B ! j)) / real (length (ys (snd (B ! j))))
                          \<le> log_prob h / real (length (ys h))) \<and>
           (\<forall>j<i. log_prob (snd (B ! j)) / real (length (ys (snd (B ! j))))
                          < log_prob h / real (length (ys h)))"
proof -
  from assms have "py_max_key (\<lambda>hyp. log_prob hyp / real (length (ys hyp))) (map snd B) = Inr h"
    by (simp add: get_most_probable_def dict_values_def)
  from py_max_key_first[OF this] obtain i where i: "i < length B" "map snd B ! i = h"
    "\<forall>j<length (map snd B). log_prob (map snd B ! j) / real (length (ys (map snd B ! j)))
        \<le> log_prob h / real (length (ys h))"
    "\<forall>j<i. log_prob (map snd B ! j) / real (length (ys (map snd B ! j)))
        < log_prob h / real (length (ys h))"
    by auto
  have "snd (B ! i) = h" using i(1,2) by simp
  moreover have "\<forall>j<length B. log_prob (snd (B ! j)) / real (length (ys (snd (B ! j))))
                          \<le> log_prob h / real (length (ys h))"
    using i(3) by simp
  moreover have "\<forall>j<i. log_prob (snd (B ! j)) / real (length (ys (snd (B ! j))))
                          < log_prob h / real (length (ys h))"
  proof (intro allI impI)
    fix j assume "j < i"
    with i(4) have "log_prob (map snd B ! j) / real (length (ys (map snd B ! j)))
        < log_prob h / real (length (ys h))" by blast
    moreover from \<open>j < i\<close> i(1) have "map snd B ! j = snd (B ! j)" by simp
    ultimately show "log_prob (snd (B ! j)) / real (length (ys (snd (B ! j))))
                          < log_prob h / real (length (ys h))"
      by simp
  qed
  ultimately show ?thesis using i(1) by blast
qed

lemma modified_beam_search_rows:
  assumes "modified_beam_search topk sort_desc m encoder_out encoder_out_lens beam temperature
           = (calls, Inr res)"
  shows "\<exists>unsorted st.
           beam_search_loop topk sort_desc m encoder_out encoder_out_lens beam temperature
             = (calls, Inr (unsorted, st)) \<and>
           length (hyps res) = length encoder_out \<and> length (timestamps res) = length encoder_out \<and>
           length (scores res) = length encoder_out \<and>
           (\<forall>i<length encoder_out. unsorted ! i < length (b_B st @ b_finalized st) \<and>
              (\<exists>h. get_most_probable True ((b_B st @ b_finalized st) ! (unsorted ! i)) = Inr h \<and>
                   hyps res ! i = drop (context_size m) (ys h) \<and>
                   timestamps res ! i = timestamp h \<and> scores res ! i = hyp_scores h))"
proof -
  from assms obtain unsorted st best where
    loop: "beam_search_loop topk sort_desc m encoder_out encoder_out_lens beam temperature
             = (calls, Inr (unsorted, st))"
    and best: "map_result (get_most_probable True) (b_B st @ b_finalized st) = Inr best"
    and res: "make_results unsorted (length encoder_out)
                (map (\<lambda>h. drop (context_size m) (ys h)) best)
                (map timestamp best) (map hyp_scores best) = Inr res"
    by (auto simp: modified_beam_search_def split: sum.splits prod.splits)
  note mb = map_result_Inr[OF best]
  note mr = make_results_Inr[OF res]
  have "\<forall>i<length encoder_out. unsorted ! i < length (b_B st @ b_finalized st) \<and>
              (\<exists>h. get_most_probable True ((b_B st @ b_finalized st) ! (unsorted ! i)) = Inr h \<and>
                   hyps res ! i = drop (context_size m) (ys h) \<and>
                   timestamps res ! i = timestamp h \<and> scores res ! i = hyp_scores h)"
  proof (intro allI impI)
    fix i assume i: "i < length encoder_out"
    with mr have u: "unsorted ! i < length best" by simp
    with mb have ul: "unsorted ! i < length (b_B st @ b_finalized st)" by simp
    with mb have g: "get_most_probable True ((b_B st @ b_finalized st) ! (unsorted ! i))
                    = Inr (best ! (unsorted ! i))" by blast
    from mr i u have "hyps res ! i = drop (context_size m) (ys (best ! (unsorted ! i)))"
      "timestamps res ! i = timestamp (best ! (unsorted ! i))"
      "scores res ! i = hyp_scores (best ! (unsorted ! i))" by simp_all
    with ul g show "unsorted ! i < length (b_B st @ b_finalized st) \<and>
              (\<exists>h. get_most_probable True ((b_B st @ b_finalized st) ! (unsorted ! i)) = Inr h \<and>
                   hyps res ! i = drop (context_size m) (ys h) \<and>
                   timestamps res ! i = timestamp h \<and> scores res ! i = hyp_scores h)"
      by blast
  qed
  with loop mr show ?thesis
    by (intro exI[of _ unsorted] exI[of _ st]) simp
qed

lemma modified_beam_search_row_inv:
  assumes "modified_beam_search topk sort_desc m encoder_out encoder_out_lens beam temperature
           = (calls, Inr res)"
  shows "length (hyps res) = length encoder_out \<and> length (timestamps res) = length encoder_out \<and>
         length (scores res) = length encoder_out \<and>
         (\<forall>i<length encoder_out. \<exists>h t.
            row_inv m (context_size m) t h (timestamps res ! i) (scores res ! i) \<and>
            hyps res ! i = drop (context_size m) h)"
proof -
  from modified_beam_search_rows[OF assms] obtain unsorted st where
    loop: "beam_search_loop topk sort_desc m encoder_out encoder_out_lens beam temperature
             = (calls, Inr (unsorted, st))"
    and len: "length (hyps res) = length encoder_out" "length (timestamps res) = length encoder_out"
      "length (scores res) = length encoder_out"
    and rows: "\<forall>i<length encoder_out. unsorted ! i < length (b_B st @ b_finalized st) \<and>
              (\<exists>h. get_most_probable True ((b_B st @ b_finalized st) ! (unsorted ! i)) = Inr h \<and>
                   hyps res ! i = drop (context_size m) (ys h) \<and>
                   timestamps res ! i = timestamp h \<and> scores res ! i = hyp_scores h)"
    by blast
  from beam_search_loop_inv(1)[OF loop] obtain t where inv: "beam_inv m t st" by blast
  have "\<forall>i<length encoder_out. \<exists>h t.
            row_inv m (context_size m) t h (timestamps res ! i) (scores res ! i) \<and>
            hyps res ! i = drop (context_size m) h"
  proof (intro allI impI)
    fix i assume "i < length encoder_out"
    with rows obtain h where u: "unsorted ! i < length (b_B st @ b_finalized st)"
      and g: "get_most_probable True ((b_B st @ b_finalized st) ! (unsorted ! i)) = Inr h"
      and e: "hyps res ! i = drop (context_size m) (ys h)" "timestamps res ! i = timestamp h"
        "scores res ! i = hyp_scores h" by blast
    define B where "B = (b_B st @ b_finalized st) ! (unsorted ! i)"
    from u have "B \<in> set (b_B st @ b_finalized st)" unfolding B_def by (rule nth_mem)
    with inv have hi: "hyps_inv m t B" by (simp add: beam_inv_def)
    from get_most_probable_first[OF g] obtain j where "j < length B" "snd (B ! j) = h"
      unfolding B_def by blast
    then have "(fst (B ! j), h) \<in> set B"
      using nth_mem[of j B] by (cases "B ! j") simp
    with hi have "hyp_inv m t h" by (auto simp: hyps_inv_def)
    with e show "\<exists>h t. row_inv m (context_size m) t h (timestamps res ! i) (scores res ! i) \<and>
            hyps res ! i = drop (context_size m) h"
      unfolding hyp_inv_def by auto
  qed
  with len show ?thesis by simp
qed

section \<open>Runs of the small transducer\<close>

lemma upt_2: "[0..<2] = [0, 1]" by (simp add: upt_rec)
lemma upt_3: "[0..<3] = [0, 1, 2]" by (simp add: upt_rec)
lemma upt_9: "[0..<9] = [0, 1, 2, 3, 4, 5, 6, 7, 8]" by (simp add: upt_rec)

lemma toy_log_softmax:
  "log_softmax [1, 2, 0] = [1 - toy_Z, 2 - toy_Z, 0 - toy_Z]"
  "log_softmax [2, 1, 0] = [2 - toy_Z, 1 - toy_Z, 0 - toy_Z]"
  "log_softmax [0, 1, 2] = [0 - toy_Z, 1 - toy_Z, 2 - toy_Z]"
  by (simp_all add: log_softmax_def toy_Z_def ac_simps)

lemma toy_pack_3: "pack_padded_sequence argsort_desc [[[7], [8], [7::int]]] [3] =
  Inr \<lparr>data = [[7], [8], [7]], batch_sizes = [1, 1, 1], sorted_indices = [0], unsorted_indices = [0]\<rparr>"
  by (simp add: pack_padded_sequence_def argsort_desc_def batch_size_at_def invert_permutation_def
      upt_3 Let_def)

lemma toy_fields:
  "blank_id toy = 0" "unk_id toy = None" "context_size toy = 2"
  "decoder toy ctx = ctx" "decoder_proj toy d = d" "encoder_proj toy e = e"
  "joiner toy e d = (if d = [0, 1] then (if e = [8] then [2, 1, 0] else [0, 1, 2]) else [1, 2, 0])"
  by (simp_all add: toy_def)

lemmas toy_eval =
  toy_fields decoder_batch_def Let_def slice_def joiner_batch_def toy_log_softmax
  is_sentinel_def get_unk_id_def last_n_def make_results_def unsort_def at_index_def

lemma toy_greedy_run:
  "greedy_search_batch argsort_desc toy [[[7], [8], [7]]] [3] =
     (10, Inr \<lparr>timestamps = [[0, 2]], hyps = [[1, 2]], scores = [[2 - toy_Z, 2 - toy_Z]]\<rparr>)"
  by (simp add: greedy_search_batch_def toy_pack_3 greedy_step_def toy_eval)

lemma toy_initial:
  "initial_hypothesis toy = \<lparr>ys = [0, 0], hyp_scores = [], log_prob = 0, timestamp = []\<rparr>"
  by (simp add: initial_hypothesis_def toy_fields numeral_2_eq_2)

lemma digit_chars:
  "digit_char 0 = CHR ''0''" "digit_char 1 = CHR ''1''" "digit_char (Suc 0) = CHR ''1''"
  "digit_char 2 = CHR ''2''"
  by (code_simp)+

lemma str_int_small: "str_int 0 = ''0''" "str_int 1 = ''1''" "str_int 2 = ''2''"
  by (simp_all add: str_int_def str_nat.simps digit_chars)

lemma toy_keys:
  "key \<lparr>ys = [0, 0], hyp_scores = s, log_prob = p, timestamp = ts\<rparr> = ''0_0''"
  "key \<lparr>ys = [0, 0, 1], hyp_scores = s, log_prob = p, timestamp = ts\<rparr> = ''0_0_1''"
  "key \<lparr>ys = [0, 0, 2], hyp_scores = s, log_prob = p, timestamp = ts\<rparr> = ''0_0_2''"
  "key \<lparr>ys = [0, 0, 1, 1], hyp_scores = s, log_prob = p, timestamp = ts\<rparr> = ''0_0_1_1''"
  "key \<lparr>ys = [0, 0, 1, 2], hyp_scores = s, log_prob = p, timestamp = ts\<rparr> = ''0_0_1_2''"
  by (simp_all add: key_def str_int_small)

lemmas toy_beam_eval =
  beam_step_def toy_initial add_def contains_def get_hyps_row_splits_def
  dict_values_def row_splits_to_row_ids_def reshape_view_def add_inplace_def read_flat_def
  beam_utterance_def topk_first_def new_hypothesis_def merged_with_def getitem_def toy_keys

lemma toy_beam1_run:
  "modified_beam_search topk_first argsort_desc toy [[[7], [8], [7]]] [3] 1 1 =
     (10, Inr \<lparr>timestamps = [[0, 2]], hyps = [[1, 2]],
               scores = [[2 - toy_Z, 6 - 3 * toy_Z]]\<rparr>)"
  by (simp add: modified_beam_search_def beam_search_loop_def toy_pack_3 toy_beam_eval toy_eval
      upt_3 get_most_probable_def)

lemma toy_pack_2: "pack_padded_sequence argsort_desc [[[7], [8::int]]] [2] =
  Inr \<lparr>data = [[7], [8]], batch_sizes = [1, 1], sorted_indices = [0], unsorted_indices = [0]\<rparr>"
  by (simp add: pack_padded_sequence_def argsort_desc_def batch_size_at_def invert_permutation_def
      upt_2 Let_def)

lemma toy_beam3_step0:
  "beam_step topk_first toy [[7], [8]] 3 1 0 1
     \<lparr>b_B = [add [] (initial_hypothesis toy)], b_finalized = [], b_offset = 0, b_calls = 1,
      b_merged = []\<rparr> =
   Inr \<lparr>b_B = [[(''0_0_1'', \<lparr>ys = [0, 0, 1], hyp_scores = [2 - toy_Z], log_prob = 2 - toy_Z, timestamp = [0]\<rparr>),
                (''0_0'', \<lparr>ys = [0, 0], hyp_scores = [], log_prob = 1 - toy_Z, timestamp = []\<rparr>),
                (''0_0_2'', \<lparr>ys = [0, 0, 2], hyp_scores = [0 - toy_Z], log_prob = 0 - toy_Z, timestamp = [0]\<rparr>)]],
        b_finalized = [], b_offset = 1, b_calls = 4, b_merged = []\<rparr>"
  by (simp add: toy_beam_eval toy_eval upt_3)

lemma toy_beam3_step1:
  "beam_step topk_first toy [[7], [8]] 3 1 1 1
    \<lparr>b_B = [[(''0_0_1'', \<lparr>ys = [0, 0, 1], hyp_scores = [2 - toy_Z], log_prob = 2 - toy_Z, timestamp = [0]\<rparr>),
                (''0_0'', \<lparr>ys = [0, 0], hyp_scores = [], log_prob = 1 - toy_Z, timestamp = []\<rparr>),
                (''0_0_2'', \<lparr>ys = [0, 0, 2], hyp_scores = [0 - toy_Z], log_prob = 0 - toy_Z, timestamp = [0]\<rparr>)]],
        b_finalized = [], b_offset = 1, b_calls = 4, b_merged = []\<rparr> =
   Inr \<lparr>b_B = [[(''0_0_1'', \<lparr>ys = [0, 0, 1], hyp_scores = [2 - toy_Z],
                    log_prob = logaddexp (4 - 2 * toy_Z) (3 - 2 * toy_Z), timestamp = [0]\<rparr>),
                (''0_0_1_1'', \<lparr>ys = [0, 0, 1, 1], hyp_scores = [2 - toy_Z, 3 - 2 * toy_Z],
                    log_prob = 3 - 2 * toy_Z, timestamp = [0, 1]\<rparr>)]],
        b_finalized = [], b_offset = 2, b_calls = 7,
        b_merged = [(\<lparr>ys = [0, 0, 1], hyp_scores = [2 - toy_Z], log_prob = 4 - 2 * toy_Z,
                       timestamp = [0]\<rparr>,
                     \<lparr>ys = [0, 0, 1], hyp_scores = [3 - 2 * toy_Z], log_prob = 3 - 2 * toy_Z,
                       timestamp = [1]\<rparr>)]\<rparr>"
  by (simp add: toy_beam_eval toy_eval upt_3 upt_9)

lemma toy_beam3_loop:
  "beam_search_loop topk_first argsort_desc toy [[[7], [8]]] [2] 3 1 =
   (7, Inr ([0],
     \<lparr>b_B = [[(''0_0_1'', \<lparr>ys = [0, 0, 1], hyp_scores = [2 - toy_Z],
                    log_prob = logaddexp (4 - 2 * toy_Z) (3 - 2 * toy_Z), timestamp = [0]\<rparr>),
                (''0_0_1_1'', \<lparr>ys = [0, 0, 1, 1], hyp_scores = [2 - toy_Z, 3 - 2 * toy_Z],
                    log_prob = 3 - 2 * toy_Z, timestamp = [0, 1]\<rparr>)]],
        b_finalized = [], b_offset = 2, b_calls = 7,
        b_merged = [(\<lparr>ys = [0, 0, 1], hyp_scores = [2 - toy_Z], log_prob = 4 - 2 * toy_Z,
                       timestamp = [0]\<rparr>,
                     \<lparr>ys = [0, 0, 1], hyp_scores = [3 - 2 * toy_Z], log_prob = 3 - 2 * toy_Z,
                       timestamp = [1]\<rparr>)]\<rparr>))"
  by (simp add: beam_search_loop_def toy_pack_2 toy_fields toy_beam3_step0[simplified] toy_beam3_step1[simplified])

section \<open>A run of the second small transducer\<close>












section \<open>Packing and unsorting\<close>

text \<open>Lengths sorted in descending order: the rows longer than \<open>t\<close> are a prefix.\<close>

lemma batch_size_at_prefix:
  assumes "sorted_wrt (\<lambda>a b. b \<le> a) ls" "j < length ls"
  shows "j < batch_size_at ls t \<longleftrightarrow> int t < ls ! j"
  using assms
proof (induction ls arbitrary: j)
  case Nil
  then show ?case by simp
next
  case (Cons l ls)
  show ?case
  proof (cases "int t < l")
    case True
    then have b: "batch_size_at (l # ls) t = Suc (batch_size_at ls t)" by (simp add: batch_size_at_def)
    show ?thesis
    proof (cases j)
      case 0
      with True b show ?thesis by simp
    next
      case (Suc k)
      with Cons b show ?thesis by simp
    qed
  next
    case False
    with Cons.prems(1) have "\<forall>x \<in> set ls. \<not> int t < x" by auto
    then have "filter (\<lambda>x. int t < x) ls = []" by (simp add: filter_empty_conv)
    with False have b: "batch_size_at (l # ls) t = 0" by (simp add: batch_size_at_def)
    have "\<not> int t < (l # ls) ! j"
    proof (cases j)
      case 0
      with False show ?thesis by simp
    next
      case (Suc k)
      with Cons.prems(2) have "ls ! k \<in> set ls" by simp
      with \<open>\<forall>x \<in> set ls. \<not> int t < x\<close> Suc show ?thesis by simp
    qed
    with b show ?thesis by simp
  qed
qed

lemma batch_size_at_le: "batch_size_at ls t \<le> length ls"
  by (simp add: batch_size_at_def)

lemma batch_size_at_mono: "t \<le> t' \<Longrightarrow> batch_size_at ls t' \<le> batch_size_at ls t"
proof (induction ls)
  case Nil
  then show ?case by (simp add: batch_size_at_def)
next
  case (Cons l ls)
  then show ?case by (auto simp: batch_size_at_def)
qed

text \<open>Reading one step's rows out of the flat buffer.\<close>

lemma slice_concat_step:
  assumes "drop off xs = concat (map F [t..<T])" "t < T" "length (F t) = b"
  shows "slice xs off (off + b) = F t" and "drop (off + b) xs = concat (map F [Suc t..<T])"
proof -
  from assms(2) have u: "[t..<T] = t # [Suc t..<T]" by (simp add: upt_conv_Cons)
  with assms(1) have d: "drop off xs = F t @ concat (map F [Suc t..<T])" by simp
  then show "slice xs off (off + b) = F t" using assms(3) by (simp add: slice_def)
  have "drop (off + b) xs = drop b (drop off xs)" by (simp add: add.commute)
  with d assms(3) show "drop (off + b) xs = concat (map F [Suc t..<T])" by simp
qed

text \<open>The inverse of a permutation list.\<close>

lemma index_of_mem: "j \<in> set ps \<Longrightarrow> index_of j ps < length ps \<and> ps ! index_of j ps = j"
  by (induction ps) auto

lemma index_of_nth: "distinct ps \<Longrightarrow> k < length ps \<Longrightarrow> index_of (ps ! k) ps = k"
proof (induction ps arbitrary: k)
  case Nil
  then show ?case by simp
next
  case (Cons p ps)
  then show ?case by (cases k) auto
qed

lemma invert_permutation_props:
  assumes "set ps = {0..<length ps}" "i < length ps"
  shows "invert_permutation ps ! i < length ps" and "ps ! (invert_permutation ps ! i) = i"
proof -
  from assms have "i \<in> set ps" by simp
  from index_of_mem[OF this] assms(2)
  show "invert_permutation ps ! i < length ps" and "ps ! (invert_permutation ps ! i) = i"
    by (simp_all add: invert_permutation_def)
qed

lemma unsort_permutation:
  assumes "set ps = {0..<N}" "length ps = N" "length xs = N"
  shows "unsort (invert_permutation ps) N xs = Inr (map (\<lambda>i. xs ! (invert_permutation ps ! i)) [0..<N])"
proof -
  have "\<forall>i \<in> set [0..<N].
          (case at_index (invert_permutation ps) i of Inl e \<Rightarrow> Inl e
           | Inr j \<Rightarrow> at_index xs j) = Inr (xs ! (invert_permutation ps ! i))"
  proof
    fix i assume "i \<in> set [0..<N]"
    then have i: "i < length ps" using assms(2) by simp
    with invert_permutation_props(1)[of ps i] assms
    show "(case at_index (invert_permutation ps) i of Inl e \<Rightarrow> Inl e
           | Inr j \<Rightarrow> at_index xs j) = Inr (xs ! (invert_permutation ps ! i))"
      by (simp add: at_index_def invert_permutation_def)
  qed
  from map_result_all_Inr[OF this] show ?thesis by (simp add: unsort_def)
qed


text \<open>What an admissible sort gives, and when packing succeeds.\<close>

lemma sort_ok_props:
  assumes "sort_ok sort_desc"
  shows "length (sort_desc ls) = length ls" and "set (sort_desc ls) = {0..<length ls}"
    and "distinct (sort_desc ls)"
    and "sorted_wrt (\<lambda>a b. b \<le> a) (permute (sort_desc ls) ls)"
proof -
  from assms show l: "length (sort_desc ls) = length ls" and s: "set (sort_desc ls) = {0..<length ls}"
    and "sorted_wrt (\<lambda>a b. b \<le> a) (permute (sort_desc ls) ls)"
    by (simp_all add: sort_ok_def permute_def)
  from l s have "card (set (sort_desc ls)) = length (sort_desc ls)" by simp
  then show "distinct (sort_desc ls)" by (rule card_distinct)
qed

lemma permute_nth: "k < length p \<Longrightarrow> permute p xs ! k = xs ! (p ! k)"
  by (simp add: permute_def)

lemma length_permute [simp]: "length (permute p xs) = length p"
  by (simp add: permute_def)

lemma pack_padded_sequence_valid:
  assumes ok: "sort_ok sort_desc" and v: "valid_batch encoder_out encoder_out_lens"
  shows "pack_padded_sequence sort_desc encoder_out encoder_out_lens =
         Inr \<lparr>data = concat (map (\<lambda>t. map (\<lambda>row. row ! t)
                         (take (batch_size_at (permute (sort_desc encoder_out_lens) encoder_out_lens) t)
                               (permute (sort_desc encoder_out_lens) encoder_out)))
                       [0..<nat (hd (permute (sort_desc encoder_out_lens) encoder_out_lens))]),
              batch_sizes = map (batch_size_at (permute (sort_desc encoder_out_lens) encoder_out_lens))
                       [0..<nat (hd (permute (sort_desc encoder_out_lens) encoder_out_lens))],
              sorted_indices = sort_desc encoder_out_lens,
              unsorted_indices = invert_permutation (sort_desc encoder_out_lens)\<rparr>"
proof -
  define sg where "sg = sort_desc encoder_out_lens"
  define N where "N = length encoder_out"
  define SI where "SI = map (\<lambda>i. encoder_out ! i) sg"
  define SL where "SL = map (\<lambda>i. encoder_out_lens ! i) sg"
  note sp = sort_ok_props[OF ok, of encoder_out_lens, folded sg_def]
  from v have N: "N \<noteq> 0" "length encoder_out_lens = N"
    and each: "\<forall>i<N. 0 < encoder_out_lens ! i \<and> encoder_out_lens ! i \<le> int (length (encoder_out ! i))"
    by (simp_all add: valid_batch_def N_def)
  have lsg: "length sg = N" using sp(1) N(2) by simp
  have ssg: "set sg = {0..<N}" using sp(2) N(2) by simp
  have srt: "sorted_wrt (\<lambda>a b. b \<le> a) SL" using sp(4) by (simp add: SL_def permute_def)
  have c1: "\<not> (\<exists>i \<in> set sg. length encoder_out \<le> i)" using ssg by (auto simp: N_def)
  have c2: "SI \<noteq> []" using lsg N(1) by (auto simp: SI_def)
  have c3: "\<not> (\<exists>l \<in> set SL. l \<le> 0)"
    using ssg each by (fastforce simp: SL_def)
  have fits: "\<And>j. j < N \<Longrightarrow> SL ! j \<le> int (length (SI ! j))"
  proof -
    fix j assume j: "j < N"
    then have "sg ! j < N" using ssg lsg nth_mem[of j sg] by simp
    with each j lsg show "SL ! j \<le> int (length (SI ! j))" by (simp add: SL_def SI_def)
  qed
  have keep: "\<And>t. filter (\<lambda>row. t < length row) (take (batch_size_at SL t) SI)
                   = take (batch_size_at SL t) SI"
  proof -
    fix t
    have "\<forall>row \<in> set (take (batch_size_at SL t) SI). t < length row"
    proof
      fix row assume "row \<in> set (take (batch_size_at SL t) SI)"
      then obtain j where j: "j < batch_size_at SL t" "j < length SI" and row: "row = SI ! j"
        by (auto simp: in_set_conv_nth)
      from j(2) lsg have jN: "j < N" by (simp add: SI_def)
      then have jl: "j < length SL" using lsg by (simp add: SL_def)
      from batch_size_at_prefix[OF srt jl, of t] j(1) have "int t < SL ! j" by simp
      with fits[OF jN] show "t < length row" unfolding row by linarith
    qed
    then show "filter (\<lambda>row. t < length row) (take (batch_size_at SL t) SI)
                   = take (batch_size_at SL t) SI"
      by (simp add: filter_id_conv)
  qed
  show ?thesis
    unfolding pack_padded_sequence_def Let_def sg_def[symmetric] permute_def
      SI_def[symmetric] SL_def[symmetric]
    using c1 c2 c3 by (simp add: keep)
qed


section \<open>The greedy batch against single utterances\<close>

lemma greedy_emit_succeeds:
  assumes len: "length hs = n" "length ts = n" "length ss = n"
    and ok: "\<forall>j<length y. \<not> is_sentinel m (int (y ! j)) \<longrightarrow>
               j < n \<and> j < length lp \<and> y ! j < length (lp ! j)"
  shows "\<exists>r. greedy_emit m t lp (zip [0..<length y] y) (hs, ts, ss, False) = Inr r"
  using ok
proof (induction y rule: rev_induct)
  case Nil
  have "greedy_emit m t lp (zip [0..<length []] []) (hs, ts, ss, False) = Inr (hs, ts, ss, False)"
    by simp
  then show ?case by (rule exI)
next
  case (snoc v y)
  have "\<forall>j<length y. \<not> is_sentinel m (int (y ! j)) \<longrightarrow>
               j < n \<and> j < length lp \<and> y ! j < length (lp ! j)"
  proof (intro allI impI)
    fix j assume j: "j < length y" "\<not> is_sentinel m (int (y ! j))"
    then have "(y @ [v]) ! j = y ! j" by (simp add: nth_append)
    with snoc.prems j show "j < n \<and> j < length lp \<and> y ! j < length (lp ! j)"
      by (metis length_append_singleton less_Suc_eq)
  qed
  from snoc.IH[OF this] obtain h1 t1 s1 e1 where
    first: "greedy_emit m t lp (zip [0..<length y] y) (hs, ts, ss, False) = Inr (h1, t1, s1, e1)"
    by (metis prod_cases4)
  from greedy_emit_char[OF len first] have l1: "length h1 = n" "length t1 = n" "length s1 = n"
    by simp_all
  from snoc.prems have lastok: "\<not> is_sentinel m (int v) \<longrightarrow>
      length y < n \<and> length y < length lp \<and> v < length (lp ! length y)"
    by (metis length_append_singleton lessI nth_append_length)
  have "\<exists>r. greedy_emit m t lp [(length y, v)] (h1, t1, s1, e1) = Inr r"
    using lastok l1 by auto
  then show ?case
    using first by (simp add: greedy_emit_append)
qed

lemma greedy_row_Inr_argmax:
  "greedy_row m t e d row = Inr r \<Longrightarrow> \<exists>v. argmax (log_softmax (joiner m e d)) = Inr v"
  by (auto simp: greedy_row_def Let_def split: sum.splits)

lemma greedy_step_succeeds:
  assumes len: "length (g_hyps st) = n" "length (g_timestamps st) = n" "length (g_scores st) = n"
    and lcd: "length (slice enc (g_offset st) (g_offset st + b)) = length (take b (g_decoder_out st))"
    and le: "length (slice enc (g_offset st) (g_offset st + b)) \<le> n"
    and rows: "\<forall>j<length (slice enc (g_offset st) (g_offset st + b)).
                 \<exists>r. greedy_row m t (slice enc (g_offset st) (g_offset st + b) ! j)
                        (take b (g_decoder_out st) ! j)
                        (g_hyps st ! j, g_timestamps st ! j, g_scores st ! j) = Inr r"
  shows "\<exists>st'. greedy_step m enc t b st = Inr st'"
proof -
  define cur where "cur = slice enc (g_offset st) (g_offset st + b)"
  define dec where "dec = take b (g_decoder_out st)"
  define logits where "logits = map (\<lambda>(e, d). joiner m e d) (zip cur dec)"
  define lp where "lp = map log_softmax logits"
  have j: "joiner_batch m cur dec = Inr logits"
    using lcd by (simp add: joiner_batch_def cur_def dec_def logits_def)
  have llp: "length lp = length cur" using lcd by (simp add: lp_def logits_def cur_def dec_def)
  have lpj: "\<And>j. j < length cur \<Longrightarrow> lp ! j = log_softmax (joiner m (cur ! j) (dec ! j))"
    using lcd by (simp add: lp_def logits_def cur_def dec_def)
  have "\<forall>x \<in> set lp. \<exists>v. argmax x = Inr v"
  proof
    fix x assume "x \<in> set lp"
    then obtain j where jl: "j < length cur" and x: "x = lp ! j"
      using llp by (auto simp: in_set_conv_nth)
    from rows jl obtain r where "greedy_row m t (cur ! j) (dec ! j)
                        (g_hyps st ! j, g_timestamps st ! j, g_scores st ! j) = Inr r"
      unfolding cur_def dec_def by blast
    from greedy_row_Inr_argmax[OF this] lpj[OF jl] x show "\<exists>v. argmax x = Inr v" by simp
  qed
  then have "\<forall>x \<in> set lp. argmax x = Inr (SOME v. argmax x = Inr v)"
    by (metis (mono_tags, lifting) someI_ex)
  from map_result_all_Inr[OF this] obtain y where y: "map_result argmax lp = Inr y" by blast
  from map_result_Inr[OF y] have ly: "length y = length cur"
    and ay: "\<forall>j<length cur. argmax (lp ! j) = Inr (y ! j)" using llp by simp_all
  have "\<forall>j<length y. \<not> is_sentinel m (int (y ! j)) \<longrightarrow>
               j < n \<and> j < length lp \<and> y ! j < length (lp ! j)"
    using ly llp le ay argmax_less unfolding cur_def by fastforce
  from greedy_emit_succeeds[OF len this] obtain r where
    "greedy_emit m t lp (zip [0..<length y] y)
        (g_hyps st, g_timestamps st, g_scores st, False) = Inr r" by blast
  then show ?thesis
    using j y unfolding greedy_step_def Let_def cur_def[symmetric] dec_def[symmetric]
    by (cases r) (simp add: lp_def)
qed

lemma row_frames_done: "T \<le> t \<Longrightarrow> row_frames F bs j t T = []"
  by (simp add: row_frames_def)

lemma row_frames_active:
  "t < T \<Longrightarrow> j < bs t \<Longrightarrow> row_frames F bs j t T = F t ! j # row_frames F bs j (Suc t) T"
  by (simp add: row_frames_def upt_conv_Cons)

lemma row_frames_retired:
  assumes "\<forall>s s'. s \<le> s' \<longrightarrow> bs s' \<le> bs s" "\<not> j < bs t"
  shows "row_frames F bs j t T = []"
proof -
  have "\<forall>s \<in> set [t..<T]. \<not> j < bs s"
  proof
    fix s assume "s \<in> set [t..<T]"
    then have "t \<le> s" by simp
    with assms(1) have "bs s \<le> bs t" by blast
    with assms(2) show "\<not> j < bs s" by simp
  qed
  then have "filter (\<lambda>s. j < bs s) [t..<T] = []" by (simp add: filter_empty_conv)
  then show ?thesis by (simp add: row_frames_def)
qed

lemma greedy_ctx_step:
  assumes ctx: "greedy_ctx m dat F bs T N t st" and t: "t < T"
    and step: "greedy_step m dat t (bs t) st = Inr st1"
  shows "greedy_ctx m dat F bs T N (Suc t) st1"
    and "\<forall>j<N. j < bs t \<longrightarrow>
           greedy_row m t (F t ! j)
             (decoder_proj m (decoder m (last_n (context_size m) (g_hyps st ! j))))
             (g_hyps st ! j, g_timestamps st ! j, g_scores st ! j)
           = Inr (g_hyps st1 ! j, g_timestamps st1 ! j, g_scores st1 ! j)"
    and "\<forall>j<N. \<not> j < bs t \<longrightarrow>
           g_hyps st1 ! j = g_hyps st ! j \<and> g_timestamps st1 ! j = g_timestamps st ! j \<and>
           g_scores st1 ! j = g_scores st ! j"
proof -
  from ctx have d: "drop (g_offset st) dat = concat (map F [t..<T])"
    and lF: "\<forall>s. length (F s) = bs s" and mono: "\<forall>s s'. s \<le> s' \<longrightarrow> bs s' \<le> bs s"
    and bN: "\<forall>s. bs s \<le> N"
    and len: "length (g_hyps st) = N" "length (g_timestamps st) = N" "length (g_scores st) = N"
    and bd: "bs t \<le> length (g_decoder_out st)"
    and cons: "\<forall>j<length (g_decoder_out st). j < N \<longrightarrow>
        g_decoder_out st ! j = decoder_proj m (decoder m (last_n (context_size m) (g_hyps st ! j)))"
    using t by (simp_all add: greedy_ctx_def)
  from lF have lFt: "length (F t) = bs t" by simp
  note sl = slice_concat_step[OF d t lFt]
  note ch = greedy_step_char[OF step len, unfolded sl(1)]
  have decj: "\<And>j. j < bs t \<Longrightarrow> take (bs t) (g_decoder_out st) ! j
                = decoder_proj m (decoder m (last_n (context_size m) (g_hyps st ! j)))"
  proof -
    fix j assume j: "j < bs t"
    with bd have "j < length (g_decoder_out st)" by simp
    moreover from j bN have "j < N" using less_le_trans by blast
    ultimately show "take (bs t) (g_decoder_out st) ! j
                = decoder_proj m (decoder m (last_n (context_size m) (g_hyps st ! j)))"
      using cons j by simp
  qed
  show "\<forall>j<N. j < bs t \<longrightarrow>
           greedy_row m t (F t ! j)
             (decoder_proj m (decoder m (last_n (context_size m) (g_hyps st ! j))))
             (g_hyps st ! j, g_timestamps st ! j, g_scores st ! j)
           = Inr (g_hyps st1 ! j, g_timestamps st1 ! j, g_scores st1 ! j)"
    using ch(4) lFt decj by simp
  show "\<forall>j<N. \<not> j < bs t \<longrightarrow>
           g_hyps st1 ! j = g_hyps st ! j \<and> g_timestamps st1 ! j = g_timestamps st ! j \<and>
           g_scores st1 ! j = g_scores st ! j"
    using ch(5) lFt by simp
  have off: "drop (g_offset st1) dat = concat (map F [Suc t..<T])"
    using ch(3) sl(2) by simp
  have nb: "bs (Suc t) \<le> bs t" using mono by simp
  have btN: "bs t \<le> N" using bN by simp
  have dl: "bs t \<le> length (g_decoder_out st1)"
    using ch(6) bd btN ch(2) by (auto simp: decoder_batch_def)
  have cons1: "\<forall>j<length (g_decoder_out st1). j < N \<longrightarrow>
        g_decoder_out st1 ! j = decoder_proj m (decoder m (last_n (context_size m) (g_hyps st1 ! j)))"
  proof (intro allI impI)
    fix j assume j: "j < length (g_decoder_out st1)" "j < N"
    from ch(6) show "g_decoder_out st1 ! j
        = decoder_proj m (decoder m (last_n (context_size m) (g_hyps st1 ! j)))"
    proof
      assume a: "g_decoder_out st1 = take (bs t) (g_decoder_out st) \<and> g_hyps st1 = g_hyps st"
      with j have "j < bs t" by simp
      with decj a show ?thesis by simp
    next
      assume a: "g_decoder_out st1
                 = decoder_batch m (map (last_n (context_size m)) (take (bs t) (g_hyps st1)))"
      with j have "j < bs t" by (simp add: decoder_batch_def)
      with a j ch(2) show ?thesis by (simp add: decoder_batch_def)
    qed
  qed
  have dl1: "bs (Suc t) \<le> length (g_decoder_out st1)" using nb dl by simp
  show "greedy_ctx m dat F bs T N (Suc t) st1"
    unfolding greedy_ctx_def using off lF mono bN ch(2) dl1 cons1 by simp
qed

lemma greedy_loop_rows:
  assumes "greedy_ctx m dat F bs T N t st"
    and "greedy_loop m dat t (map bs [t..<T]) st = Inr st'"
  shows "length (g_hyps st') = N \<and> length (g_timestamps st') = N \<and> length (g_scores st') = N \<and>
         (\<forall>j<N. greedy_utt_loop m t (row_frames F bs j t T)
                   (g_hyps st ! j, g_timestamps st ! j, g_scores st ! j)
                 = Inr (g_hyps st' ! j, g_timestamps st' ! j, g_scores st' ! j))"
  using assms
proof (induction "T - t" arbitrary: t st)
  case 0
  then have "T \<le> t" by simp
  with 0 show ?case by (simp add: row_frames_done greedy_ctx_def)
next
  case (Suc k)
  then have t: "t < T" by simp
  then have u: "[t..<T] = t # [Suc t..<T]" by (simp add: upt_conv_Cons)
  from Suc.prems(2) u obtain st1 where
    step: "greedy_step m dat t (bs t) st = Inr st1"
    and rest: "greedy_loop m dat (Suc t) (map bs [Suc t..<T]) st1 = Inr st'"
    by (auto split: sum.splits)
  note cs = greedy_ctx_step[OF Suc.prems(1) t step]
  from Suc.hyps(2) have k: "k = T - Suc t" by simp
  note ih = Suc.hyps(1)[OF k cs(1) rest]
  from Suc.prems(1) have mono: "\<forall>s s'. s \<le> s' \<longrightarrow> bs s' \<le> bs s" by (simp add: greedy_ctx_def)
  have "\<forall>j<N. greedy_utt_loop m t (row_frames F bs j t T)
                   (g_hyps st ! j, g_timestamps st ! j, g_scores st ! j)
                 = Inr (g_hyps st' ! j, g_timestamps st' ! j, g_scores st' ! j)"
  proof (intro allI impI)
    fix j assume j: "j < N"
    show "greedy_utt_loop m t (row_frames F bs j t T)
                   (g_hyps st ! j, g_timestamps st ! j, g_scores st ! j)
                 = Inr (g_hyps st' ! j, g_timestamps st' ! j, g_scores st' ! j)"
    proof (cases "j < bs t")
      case True
      with cs(2) j have "greedy_row m t (F t ! j)
             (decoder_proj m (decoder m (last_n (context_size m) (g_hyps st ! j))))
             (g_hyps st ! j, g_timestamps st ! j, g_scores st ! j)
           = Inr (g_hyps st1 ! j, g_timestamps st1 ! j, g_scores st1 ! j)" by blast
      moreover from ih j have "greedy_utt_loop m (Suc t) (row_frames F bs j (Suc t) T)
                   (g_hyps st1 ! j, g_timestamps st1 ! j, g_scores st1 ! j)
                 = Inr (g_hyps st' ! j, g_timestamps st' ! j, g_scores st' ! j)" by blast
      ultimately show ?thesis by (simp add: row_frames_active[of t T j bs, OF t True])
    next
      case False
      with cs(3) j have same: "g_hyps st1 ! j = g_hyps st ! j"
        "g_timestamps st1 ! j = g_timestamps st ! j" "g_scores st1 ! j = g_scores st ! j" by blast+
      from mono False have "\<not> j < bs (Suc t)"
        by (meson le_SucI le_refl less_le_trans)
      from row_frames_retired[OF mono this, of F T] ih j same
      have "(g_hyps st ! j, g_timestamps st ! j, g_scores st ! j)
            = (g_hyps st' ! j, g_timestamps st' ! j, g_scores st' ! j)" by fastforce
      then show ?thesis by (simp add: row_frames_retired[OF mono False])
    qed
  qed
  with ih show ?case by blast
qed

lemma greedy_loop_succeeds:
  assumes "greedy_ctx m dat F bs T N t st"
    and "\<forall>j<N. \<exists>r. greedy_utt_loop m t (row_frames F bs j t T)
                       (g_hyps st ! j, g_timestamps st ! j, g_scores st ! j) = Inr r"
  shows "\<exists>st'. greedy_loop m dat t (map bs [t..<T]) st = Inr st'"
  using assms
proof (induction "T - t" arbitrary: t st)
  case 0
  then show ?case by simp
next
  case (Suc k)
  then have t: "t < T" by simp
  then have u: "[t..<T] = t # [Suc t..<T]" by (simp add: upt_conv_Cons)
  from Suc.prems(1) have d: "drop (g_offset st) dat = concat (map F [t..<T])"
    and lF: "\<forall>s. length (F s) = bs s" and mono: "\<forall>s s'. s \<le> s' \<longrightarrow> bs s' \<le> bs s"
    and bN: "\<forall>s. bs s \<le> N"
    and len: "length (g_hyps st) = N" "length (g_timestamps st) = N" "length (g_scores st) = N"
    and bd: "bs t \<le> length (g_decoder_out st)"
    and cons: "\<forall>j<length (g_decoder_out st). j < N \<longrightarrow>
        g_decoder_out st ! j = decoder_proj m (decoder m (last_n (context_size m) (g_hyps st ! j)))"
    using t by (simp_all add: greedy_ctx_def)
  from lF have lFt: "length (F t) = bs t" by simp
  note sl = slice_concat_step[OF d t lFt]
  have rows: "\<forall>j<bs t. \<exists>r. greedy_row m t (F t ! j) (take (bs t) (g_decoder_out st) ! j)
                        (g_hyps st ! j, g_timestamps st ! j, g_scores st ! j) = Inr r"
  proof (intro allI impI)
    fix j assume j: "j < bs t"
    with bN have jN: "j < N" using less_le_trans by blast
    with Suc.prems(2) obtain r where
      "greedy_utt_loop m t (row_frames F bs j t T)
         (g_hyps st ! j, g_timestamps st ! j, g_scores st ! j) = Inr r" by blast
    then obtain r1 where r1: "greedy_row m t (F t ! j)
             (decoder_proj m (decoder m (last_n (context_size m) (g_hyps st ! j))))
             (g_hyps st ! j, g_timestamps st ! j, g_scores st ! j) = Inr r1"
      by (auto simp: row_frames_active[of t T j bs, OF t j] split: sum.splits)
    have e: "take (bs t) (g_decoder_out st) ! j
                = decoder_proj m (decoder m (last_n (context_size m) (g_hyps st ! j)))"
      using cons j jN bd by simp
    show "\<exists>r. greedy_row m t (F t ! j) (take (bs t) (g_decoder_out st) ! j)
                        (g_hyps st ! j, g_timestamps st ! j, g_scores st ! j) = Inr r"
      unfolding e using r1 by (rule exI)
  qed
  have "\<exists>st1. greedy_step m dat t (bs t) st = Inr st1"
  proof (rule greedy_step_succeeds[OF len])
    show "length (slice dat (g_offset st) (g_offset st + bs t)) = length (take (bs t) (g_decoder_out st))"
      using sl(1) lFt bd by simp
    show "length (slice dat (g_offset st) (g_offset st + bs t)) \<le> N"
      using sl(1) lFt bN by simp
    show "\<forall>j<length (slice dat (g_offset st) (g_offset st + bs t)).
            \<exists>r. greedy_row m t (slice dat (g_offset st) (g_offset st + bs t) ! j)
                   (take (bs t) (g_decoder_out st) ! j)
                   (g_hyps st ! j, g_timestamps st ! j, g_scores st ! j) = Inr r"
      using rows sl(1) lFt by simp
  qed
  then obtain st1 where step: "greedy_step m dat t (bs t) st = Inr st1" by blast
  note cs = greedy_ctx_step[OF Suc.prems(1) t step]
  from Suc.hyps(2) have k: "k = T - Suc t" by simp
  have "\<forall>j<N. \<exists>r. greedy_utt_loop m (Suc t) (row_frames F bs j (Suc t) T)
                       (g_hyps st1 ! j, g_timestamps st1 ! j, g_scores st1 ! j) = Inr r"
  proof (intro allI impI)
    fix j assume j: "j < N"
    from Suc.prems(2) j obtain r where
      r: "greedy_utt_loop m t (row_frames F bs j t T)
         (g_hyps st ! j, g_timestamps st ! j, g_scores st ! j) = Inr r" by blast
    show "\<exists>r. greedy_utt_loop m (Suc t) (row_frames F bs j (Suc t) T)
                       (g_hyps st1 ! j, g_timestamps st1 ! j, g_scores st1 ! j) = Inr r"
    proof (cases "j < bs t")
      case True
      with cs(2) j have "greedy_row m t (F t ! j)
             (decoder_proj m (decoder m (last_n (context_size m) (g_hyps st ! j))))
             (g_hyps st ! j, g_timestamps st ! j, g_scores st ! j)
           = Inr (g_hyps st1 ! j, g_timestamps st1 ! j, g_scores st1 ! j)" by blast
      with r have "greedy_utt_loop m (Suc t) (row_frames F bs j (Suc t) T)
                       (g_hyps st1 ! j, g_timestamps st1 ! j, g_scores st1 ! j) = Inr r"
        by (simp add: row_frames_active[of t T j bs, OF t True])
      then show ?thesis by (rule exI)
    next
      case False
      from mono False have "\<not> j < bs (Suc t)"
        by (meson le_SucI le_refl less_le_trans)
      from row_frames_retired[OF mono this, of F T]
      have "greedy_utt_loop m (Suc t) (row_frames F bs j (Suc t) T)
                       (g_hyps st1 ! j, g_timestamps st1 ! j, g_scores st1 ! j)
            = Inr (g_hyps st1 ! j, g_timestamps st1 ! j, g_scores st1 ! j)" by simp
      then show ?thesis by (rule exI)
    qed
  qed
  from Suc.hyps(1)[OF k cs(1) this] step u show ?case by simp
qed


section \<open>The greedy batch against its utterances\<close>

lemma filter_less_upt: "n \<le> T \<Longrightarrow> filter (\<lambda>s. s < n) [0..<T] = [0..<n]"
proof -
  assume "n \<le> T"
  then have "[0..<T] = [0..<n] @ [n..<T]" by (metis le_add_diff_inverse upt_add_eq_append zero_le)
  then show ?thesis by (simp add: filter_empty_conv)
qed

lemma take_as_map_nth: "n \<le> length xs \<Longrightarrow> map f (take n xs) = map (\<lambda>s. f (xs ! s)) [0..<n]"
  by (simp add: list_eq_iff_nth_eq)

lemma sorted_desc_hd:
  assumes "sorted_wrt (\<lambda>a b. b \<le> a) (ls :: int list)" "j < length ls"
  shows "ls ! j \<le> hd ls"
proof (cases j)
  case 0
  with assms(2) show ?thesis by (cases ls) simp_all
next
  case (Suc k)
  with assms have "ls ! j \<le> ls ! 0" by (simp add: sorted_wrt_iff_nth_less)
  with assms(2) show ?thesis by (cases ls) simp_all
qed

lemma row_frames_sorted:
  assumes srt: "sorted_wrt (\<lambda>a b. b \<le> a) SL" and len: "length SI = length SL"
    and j: "j < length SL" and fits: "SL ! j \<le> int (length (SI ! j))"
  shows "row_frames (step_frames m SI SL) (batch_size_at SL) j 0 (nat (hd SL))
         = map (encoder_proj m) (take (nat (SL ! j)) (SI ! j))"
proof -
  have act: "\<And>s. j < batch_size_at SL s \<longleftrightarrow> s < nat (SL ! j)"
    by (simp only: batch_size_at_prefix[OF srt j] zless_nat_eq_int_zless)
  from sorted_desc_hd[OF srt j] have le: "nat (SL ! j) \<le> nat (hd SL)" by simp
  have f: "filter (\<lambda>s. j < batch_size_at SL s) [0..<nat (hd SL)] = [0..<nat (SL ! j)]"
    using filter_less_upt[OF le] by (simp add: act)
  have "map (\<lambda>s. step_frames m SI SL s ! j) [0..<nat (SL ! j)]
        = map (\<lambda>s. encoder_proj m (SI ! j ! s)) [0..<nat (SL ! j)]"
  proof (rule map_cong[OF refl])
    fix s assume "s \<in> set [0..<nat (SL ! j)]"
    then have "j < batch_size_at SL s" using act by simp
    moreover from j len have "j < length SI" by simp
    ultimately show "step_frames m SI SL s ! j = encoder_proj m (SI ! j ! s)"
      by (simp add: step_frames_def)
  qed
  also have "\<dots> = map (encoder_proj m) (take (nat (SL ! j)) (SI ! j))"
    using fits by (simp add: take_as_map_nth)
  finally show ?thesis by (simp add: row_frames_def f)
qed

text \<open>What \<open>pack_padded_sequence\<close> hands to the main loops for a valid batch.\<close>

lemma packed_valid_batch:
  assumes ok: "sort_ok sort_desc" and v: "valid_batch encoder_out encoder_out_lens"
  defines "SI \<equiv> permute (sort_desc encoder_out_lens) encoder_out"
    and "SL \<equiv> permute (sort_desc encoder_out_lens) encoder_out_lens"
  shows "\<exists>packed. pack_padded_sequence sort_desc encoder_out encoder_out_lens = Inr packed \<and>
           map (encoder_proj m) (data packed) = concat (map (step_frames m SI SL) [0..<nat (hd SL)]) \<and>
           batch_sizes packed = map (batch_size_at SL) [0..<nat (hd SL)] \<and>
           unsorted_indices packed = invert_permutation (sort_desc encoder_out_lens)"
    and "0 < nat (hd SL)" and "batch_size_at SL 0 = length encoder_out"
    and "\<forall>s<nat (hd SL). 0 < batch_size_at SL s"
    and "\<forall>l \<in> set encoder_out_lens. 0 < l"
    and "length SI = length encoder_out" and "length SL = length encoder_out"
    and "sorted_wrt (\<lambda>a b. b \<le> a) SL"
    and "\<forall>j<length encoder_out. 0 < SL ! j \<and> SL ! j \<le> int (length (SI ! j))"
proof -
  define sg where "sg = sort_desc encoder_out_lens"
  define N where "N = length encoder_out"
  note sp = sort_ok_props[OF ok, of encoder_out_lens, folded sg_def]
  from v have N: "N \<noteq> 0" "length encoder_out_lens = N"
    and each: "\<forall>i<N. 0 < encoder_out_lens ! i \<and> encoder_out_lens ! i \<le> int (length (encoder_out ! i))"
    by (simp_all add: valid_batch_def N_def)
  have lsg: "length sg = N" using sp(1) N(2) by simp
  have ssg: "set sg = {0..<N}" using sp(2) N(2) by simp
  show lSI: "length SI = length encoder_out" and lSL: "length SL = length encoder_out"
    using lsg by (simp_all add: SI_def SL_def sg_def N_def)
  show srt: "sorted_wrt (\<lambda>a b. b \<le> a) SL" using sp(4) by (simp add: SL_def sg_def)
  show rows: "\<forall>j<length encoder_out. 0 < SL ! j \<and> SL ! j \<le> int (length (SI ! j))"
  proof (intro allI impI)
    fix j assume "j < length encoder_out"
    then have j: "j < length sg" using lsg by (simp add: N_def)
    then have "sg ! j < N" using ssg nth_mem[of j sg] by simp
    with each j show "0 < SL ! j \<and> SL ! j \<le> int (length (SI ! j))"
      by (simp add: SL_def SI_def permute_nth sg_def[symmetric])
  qed
  show pos: "\<forall>l \<in> set encoder_out_lens. 0 < l"
    using each N(2) by (auto simp: in_set_conv_nth)
  have SLne: "SL \<noteq> []" using lSL N(1) by (auto simp: N_def)
  then have hd0: "hd SL = SL ! 0" by (simp add: hd_conv_nth)
  with rows N(1) show T: "0 < nat (hd SL)" by (simp add: N_def)
  have allpos: "\<forall>l \<in> set SL. 0 < l" using rows lSL by (auto simp: in_set_conv_nth)
  then have "filter (\<lambda>l. int 0 < l) SL = SL" by (auto simp: filter_id_conv)
  then show "batch_size_at SL 0 = length encoder_out" using lSL by (simp add: batch_size_at_def)
  show "\<forall>s<nat (hd SL). 0 < batch_size_at SL s"
  proof (intro allI impI)
    fix s assume "s < nat (hd SL)"
    then have "int s < SL ! 0" using hd0 by simp
    moreover have "0 < length SL" using SLne by simp
    ultimately show "0 < batch_size_at SL s" using batch_size_at_prefix[OF srt, of 0 s] by simp
  qed
  have "map (encoder_proj m)
          (concat (map (\<lambda>t. map (\<lambda>row. row ! t) (take (batch_size_at SL t) SI)) [0..<nat (hd SL)]))
        = concat (map (step_frames m SI SL) [0..<nat (hd SL)])"
    by (simp add: map_concat step_frames_def[abs_def] comp_def)
  with pack_padded_sequence_valid[OF ok v, folded SI_def SL_def]
  show "\<exists>packed. pack_padded_sequence sort_desc encoder_out encoder_out_lens = Inr packed \<and>
           map (encoder_proj m) (data packed) = concat (map (step_frames m SI SL) [0..<nat (hd SL)]) \<and>
           batch_sizes packed = map (batch_size_at SL) [0..<nat (hd SL)] \<and>
           unsorted_indices packed = invert_permutation (sort_desc encoder_out_lens)"
    by simp
qed

lemma last_n_padding:
  "last_n (context_size m) (replicate (context_size m - 1) (- 1) @ [blank_id m])
   = replicate (context_size m - 1) (- 1) @ [blank_id m]"
  by (simp add: last_n_def)

lemma greedy_search_batch_valid:
  assumes ok: "sort_ok sort_desc" and v: "valid_batch encoder_out encoder_out_lens"
  defines "SI \<equiv> permute (sort_desc encoder_out_lens) encoder_out"
    and "SL \<equiv> permute (sort_desc encoder_out_lens) encoder_out_lens"
  shows "greedy_search_batch sort_desc m encoder_out encoder_out_lens =
         (case greedy_loop m (concat (map (step_frames m SI SL) [0..<nat (hd SL)])) 0
                 (map (batch_size_at SL) [0..<nat (hd SL)]) (greedy_init m (length encoder_out)) of
            Inl (e, calls) \<Rightarrow> (calls, Inl e)
          | Inr st \<Rightarrow>
              (g_calls st,
               make_results (invert_permutation (sort_desc encoder_out_lens)) (length encoder_out)
                 (map (drop (context_size m)) (g_hyps st)) (g_timestamps st) (g_scores st)))"
proof -
  note pv = packed_valid_batch[OF ok v, folded SI_def SL_def]
  from pv(1) obtain packed where
    p: "pack_padded_sequence sort_desc encoder_out encoder_out_lens = Inr packed"
    and d: "map (encoder_proj m) (data packed) = concat (map (step_frames m SI SL) [0..<nat (hd SL)])"
    and b: "batch_sizes packed = map (batch_size_at SL) [0..<nat (hd SL)]"
    and u: "unsorted_indices packed = invert_permutation (sort_desc encoder_out_lens)"
    by blast
  from v have ne: "1 \<le> length encoder_out" by (cases encoder_out) (simp_all add: valid_batch_def)
  from pv(2) have bne: "map (batch_size_at SL) [0..<nat (hd SL)] \<noteq> []" by simp
  from pv(2) pv(3) have hdb: "hd (map (batch_size_at SL) [0..<nat (hd SL)]) = length encoder_out"
    by (simp add: upt_conv_Cons)
  show ?thesis
    unfolding greedy_search_batch_def greedy_init_def Let_def p sum.case d b u
    using ne pv(5) bne hdb by simp
qed

lemma greedy_ctx_init:
  assumes ok: "sort_ok sort_desc" and v: "valid_batch encoder_out encoder_out_lens"
  defines "SI \<equiv> permute (sort_desc encoder_out_lens) encoder_out"
    and "SL \<equiv> permute (sort_desc encoder_out_lens) encoder_out_lens"
  shows "greedy_ctx m (concat (map (step_frames m SI SL) [0..<nat (hd SL)]))
           (step_frames m SI SL) (batch_size_at SL) (nat (hd SL)) (length encoder_out) 0
           (greedy_init m (length encoder_out))"
proof -
  note pv = packed_valid_batch[OF ok v, folded SI_def SL_def]
  have le: "\<forall>s. batch_size_at SL s \<le> length encoder_out"
    using batch_size_at_le[of SL] pv(7) by simp
  have lF: "\<forall>s. length (step_frames m SI SL s) = batch_size_at SL s"
    using le pv(6) by (simp add: step_frames_def)
  have mono: "\<forall>s s'. s \<le> s' \<longrightarrow> batch_size_at SL s' \<le> batch_size_at SL s"
    using batch_size_at_mono by blast
  show ?thesis
    unfolding greedy_ctx_def greedy_init_def Let_def
    using lF mono le by (simp add: decoder_batch_def last_n_padding[unfolded One_nat_def])
qed

lemma greedy_init_row:
  "j < N \<Longrightarrow> (g_hyps (greedy_init m N) ! j, g_timestamps (greedy_init m N) ! j,
              g_scores (greedy_init m N) ! j)
            = (replicate (context_size m - 1) (- 1) @ [blank_id m], [], [])"
  by (simp add: greedy_init_def Let_def)

lemma greedy_batch_rows_single:
  assumes ok: "sort_ok sort_desc" and v: "valid_batch encoder_out encoder_out_lens"
    and run: "greedy_search_batch sort_desc m encoder_out encoder_out_lens = (calls, Inr res)"
  shows "length (hyps res) = length encoder_out \<and> length (timestamps res) = length encoder_out \<and>
         length (scores res) = length encoder_out"
    and "\<forall>i<length encoder_out.
           greedy_utterance m (encoder_out ! i) (encoder_out_lens ! i)
           = Inr (hyps res ! i, timestamps res ! i, scores res ! i)"
proof -
  define sg where "sg = sort_desc encoder_out_lens"
  define N where "N = length encoder_out"
  define SI where "SI = permute sg encoder_out"
  define SL where "SL = permute sg encoder_out_lens"
  note pv = packed_valid_batch[OF ok v, folded sg_def, folded SI_def SL_def N_def]
  note ctx = greedy_ctx_init[OF ok v, where m = m, folded sg_def, folded SI_def SL_def N_def]
  from run[unfolded greedy_search_batch_valid[OF ok v], folded sg_def, folded SI_def SL_def N_def]
  obtain st where
    loop: "greedy_loop m (concat (map (step_frames m SI SL) [0..<nat (hd SL)])) 0
             (map (batch_size_at SL) [0..<nat (hd SL)]) (greedy_init m N) = Inr st"
    and res: "make_results (invert_permutation sg) N
                 (map (drop (context_size m)) (g_hyps st)) (g_timestamps st) (g_scores st) = Inr res"
    by (auto split: sum.splits prod.splits)
  note rows = greedy_loop_rows[OF ctx loop]
  note mr = make_results_Inr[OF res]
  note sp = sort_ok_props[OF ok, of encoder_out_lens, folded sg_def]
  from v have lens: "length encoder_out_lens = N" by (simp add: valid_batch_def N_def)
  from mr show "length (hyps res) = length encoder_out \<and> length (timestamps res) = length encoder_out \<and>
         length (scores res) = length encoder_out" by (simp add: N_def)
  show "\<forall>i<length encoder_out.
           greedy_utterance m (encoder_out ! i) (encoder_out_lens ! i)
           = Inr (hyps res ! i, timestamps res ! i, scores res ! i)"
  proof (intro allI impI)
    fix i assume "i < length encoder_out"
    then have i: "i < N" by (simp add: N_def)
    define j where "j = invert_permutation sg ! i"
    from sp(1,2) lens i have j: "j < N" and sj: "sg ! j = i"
      using invert_permutation_props[of sg i] by (simp_all add: j_def)
    from j sp(1) lens have SIj: "SI ! j = encoder_out ! i" and SLj: "SL ! j = encoder_out_lens ! i"
      by (simp_all add: SI_def SL_def permute_nth sj)
    from pv(9) j have fits: "SL ! j \<le> int (length (SI ! j))" by (simp add: N_def)
    from j pv(7) have jl: "j < length SL" by (simp add: N_def)
    from pv(6) pv(7) have ll: "length SI = length SL" by simp
    note rf = row_frames_sorted[OF pv(8) ll jl fits, of m]
    from rows j have
      "greedy_utt_loop m 0 (row_frames (step_frames m SI SL) (batch_size_at SL) j 0 (nat (hd SL)))
         (g_hyps (greedy_init m N) ! j, g_timestamps (greedy_init m N) ! j,
          g_scores (greedy_init m N) ! j)
       = Inr (g_hyps st ! j, g_timestamps st ! j, g_scores st ! j)" by blast
    then have ul: "greedy_utt_loop m 0 (map (encoder_proj m) (take (nat (encoder_out_lens ! i)) (encoder_out ! i)))
         (replicate (context_size m - 1) (- 1) @ [blank_id m], [], [])
       = Inr (g_hyps st ! j, g_timestamps st ! j, g_scores st ! j)"
      by (simp only: rf greedy_init_row[OF j] SIj SLj)
    from mr i rows have "hyps res ! i = drop (context_size m) (g_hyps st ! j)"
      "timestamps res ! i = g_timestamps st ! j" "scores res ! i = g_scores st ! j"
      by (simp_all add: j_def)
    with ul show "greedy_utterance m (encoder_out ! i) (encoder_out_lens ! i)
           = Inr (hyps res ! i, timestamps res ! i, scores res ! i)"
      by (simp add: greedy_utterance_def)
  qed
qed

lemma make_results_permutation:
  assumes "set ps = {0..<N}" "length ps = N" "length a = N" "length t = N" "length s = N"
  shows "\<exists>res. make_results (invert_permutation ps) N a t s = Inr res"
  unfolding make_results_def
  by (simp add: unsort_permutation[OF assms(1,2,3)] unsort_permutation[OF assms(1,2,4)]
      unsort_permutation[OF assms(1,2,5)])

lemma greedy_batch_succeeds:
  assumes ok: "sort_ok sort_desc" and v: "valid_batch encoder_out encoder_out_lens"
    and each: "\<forall>i<length encoder_out.
                 \<exists>r. greedy_utterance m (encoder_out ! i) (encoder_out_lens ! i) = Inr r"
  shows "\<exists>calls res. greedy_search_batch sort_desc m encoder_out encoder_out_lens = (calls, Inr res)"
proof -
  define sg where "sg = sort_desc encoder_out_lens"
  define N where "N = length encoder_out"
  define SI where "SI = permute sg encoder_out"
  define SL where "SL = permute sg encoder_out_lens"
  note pv = packed_valid_batch[OF ok v, folded sg_def, folded SI_def SL_def N_def]
  note ctx = greedy_ctx_init[OF ok v, where m = m, folded sg_def, folded SI_def SL_def N_def]
  note sp = sort_ok_props[OF ok, of encoder_out_lens, folded sg_def]
  from v have lens: "length encoder_out_lens = N" by (simp add: valid_batch_def N_def)
  have "\<forall>j<N. \<exists>r. greedy_utt_loop m 0
                     (row_frames (step_frames m SI SL) (batch_size_at SL) j 0 (nat (hd SL)))
                     (g_hyps (greedy_init m N) ! j, g_timestamps (greedy_init m N) ! j,
                      g_scores (greedy_init m N) ! j) = Inr r"
  proof (intro allI impI)
    fix j assume j: "j < N"
    define i where "i = sg ! j"
    from j sp(1,2) lens have i: "i < N" using nth_mem[of j sg] by (simp add: i_def)
    from j sp(1) lens have SIj: "SI ! j = encoder_out ! i" and SLj: "SL ! j = encoder_out_lens ! i"
      by (simp_all add: SI_def SL_def permute_nth i_def)
    from pv(9) j have fits: "SL ! j \<le> int (length (SI ! j))" by (simp add: N_def)
    from j pv(7) have jl: "j < length SL" by (simp add: N_def)
    from pv(6) pv(7) have ll: "length SI = length SL" by simp
    note rf = row_frames_sorted[OF pv(8) ll jl fits, of m]
    from each i obtain r where "greedy_utterance m (encoder_out ! i) (encoder_out_lens ! i) = Inr r"
      by (auto simp: N_def)
    then obtain r' where "greedy_utt_loop m 0
         (map (encoder_proj m) (take (nat (encoder_out_lens ! i)) (encoder_out ! i)))
         (replicate (context_size m - 1) (- 1) @ [blank_id m], [], []) = Inr r'"
      by (auto simp: greedy_utterance_def split: sum.splits)
    then have "greedy_utt_loop m 0
                     (row_frames (step_frames m SI SL) (batch_size_at SL) j 0 (nat (hd SL)))
                     (g_hyps (greedy_init m N) ! j, g_timestamps (greedy_init m N) ! j,
                      g_scores (greedy_init m N) ! j) = Inr r'"
      by (simp only: rf greedy_init_row[OF j] SIj SLj)
    then show "\<exists>r. greedy_utt_loop m 0
                     (row_frames (step_frames m SI SL) (batch_size_at SL) j 0 (nat (hd SL)))
                     (g_hyps (greedy_init m N) ! j, g_timestamps (greedy_init m N) ! j,
                      g_scores (greedy_init m N) ! j) = Inr r" by (rule exI)
  qed
  from greedy_loop_succeeds[OF ctx this] obtain st where
    loop: "greedy_loop m (concat (map (step_frames m SI SL) [0..<nat (hd SL)])) 0
             (map (batch_size_at SL) [0..<nat (hd SL)]) (greedy_init m N) = Inr st" by blast
  note rows = greedy_loop_rows[OF ctx loop]
  from sp(1,2) lens have perm: "set sg = {0..<N}" "length sg = N" by simp_all
  from rows have l: "length (map (drop (context_size m)) (g_hyps st)) = N"
    "length (g_timestamps st) = N" "length (g_scores st) = N" by simp_all
  from make_results_permutation[OF perm l] obtain res where
    "make_results (invert_permutation sg) N
        (map (drop (context_size m)) (g_hyps st)) (g_timestamps st) (g_scores st) = Inr res" by blast
  with loop have "greedy_search_batch sort_desc m encoder_out encoder_out_lens = (g_calls st, Inr res)"
    unfolding greedy_search_batch_valid[OF ok v]
    by (simp add: sg_def[symmetric] SI_def[symmetric] SL_def[symmetric] N_def[symmetric])
  then show ?thesis by blast
qed

section \<open>The unknown sentinel in both decoders\<close>

lemma is_sentinel_iff: "is_sentinel m v \<longleftrightarrow> v = blank_id m \<or> unk_id m = Some v"
  by (auto simp: is_sentinel_def get_unk_id_def split: option.splits)

lemma sort_ok_single: "sort_ok sort_desc \<Longrightarrow> sort_desc [l] = [0]"
proof -
  assume "sort_ok sort_desc"
  then have s: "set (sort_desc [l]) = {0..<1}" and n: "length (sort_desc [l]) = 1"
    by (simp_all add: sort_ok_def)
  from n obtain x where x: "sort_desc [l] = [x]" by (cases "sort_desc [l]") simp_all
  with s show ?thesis by auto
qed

lemma pack_single:
  assumes "sort_ok sort_desc"
  shows "pack_padded_sequence sort_desc [[e]] [1] =
         Inr \<lparr>data = [e], batch_sizes = [1], sorted_indices = [0], unsorted_indices = [0]\<rparr>"
  by (simp add: pack_padded_sequence_def sort_ok_single[OF assms] batch_size_at_def
      invert_permutation_def Let_def)

lemma new_hypothesis_char:
  assumes "new_hypothesis m t V A_i clp tlp tix k = Inr h'"
  shows "k < length tix \<and> tix ! k div V < length A_i \<and> k < length tlp \<and> log_prob h' = tlp ! k \<and>
         (if int (tix ! k mod V) = blank_id m \<or> unk_id m = Some (int (tix ! k mod V))
          then ys h' = ys (A_i ! (tix ! k div V)) \<and>
               timestamp h' = timestamp (A_i ! (tix ! k div V)) \<and>
               hyp_scores h' = hyp_scores (A_i ! (tix ! k div V))
          else ys h' = ys (A_i ! (tix ! k div V)) @ [int (tix ! k mod V)] \<and>
               timestamp h' = timestamp (A_i ! (tix ! k div V)) @ [t] \<and>
               hyp_scores h' = hyp_scores (A_i ! (tix ! k div V)) @ [clp ! (tix ! k)])"
proof -
  from assms have k: "k < length tix"
    by (simp add: new_hypothesis_def at_index_def split: if_splits)
  then have a1: "at_index tix k = Inr (tix ! k)" by (simp add: at_index_def)
  from assms have h: "tix ! k div V < length A_i"
    by (simp add: new_hypothesis_def a1 Let_def) (simp add: at_index_def split: if_splits)
  then have a2: "at_index A_i (tix ! k div V) = Inr (A_i ! (tix ! k div V))"
    by (simp add: at_index_def)
  show ?thesis
  proof (cases "is_sentinel m (int (tix ! k mod V))")
    case True
    with assms have "k < length tlp \<and>
        h' = \<lparr>ys = ys (A_i ! (tix ! k div V)), hyp_scores = hyp_scores (A_i ! (tix ! k div V)),
              log_prob = tlp ! k, timestamp = timestamp (A_i ! (tix ! k div V))\<rparr>"
      by (simp add: new_hypothesis_def a1 a2 Let_def) (auto simp: at_index_def split: if_splits)
    with True k h show ?thesis by (simp add: is_sentinel_iff)
  next
    case False
    with assms have "k < length tlp \<and>
        h' = \<lparr>ys = ys (A_i ! (tix ! k div V)) @ [int (tix ! k mod V)],
              hyp_scores = hyp_scores (A_i ! (tix ! k div V)) @ [clp ! (tix ! k)],
              log_prob = tlp ! k, timestamp = timestamp (A_i ! (tix ! k div V)) @ [t]\<rparr>"
      by (simp add: new_hypothesis_def a1 a2 Let_def) (auto simp: at_index_def split: if_splits)
    with False k h show ?thesis by (simp add: is_sentinel_iff)
  qed
qed

lemma greedy_row_char:
  assumes "greedy_row m t e d (h, ts, ss) = Inr (h', ts', ss')"
  shows "\<exists>v. argmax (log_softmax (joiner m e d)) = Inr v \<and>
             (if int v = blank_id m \<or> unk_id m = Some (int v)
              then h' = h \<and> ts' = ts \<and> ss' = ss
              else h' = h @ [int v] \<and> ts' = ts @ [t] \<and>
                   ss' = ss @ [log_softmax (joiner m e d) ! v])"
proof -
  from assms obtain v where v: "argmax (log_softmax (joiner m e d)) = Inr v"
    by (cases "argmax (log_softmax (joiner m e d))") (simp_all add: greedy_row_def Let_def)
  show ?thesis
  proof (cases "is_sentinel m (int v)")
    case True
    with assms v have "h' = h \<and> ts' = ts \<and> ss' = ss" by (simp add: greedy_row_def Let_def)
    with True v show ?thesis by (simp add: is_sentinel_iff)
  next
    case False
    with assms v have "h' = h @ [int v] \<and> ts' = ts @ [t] \<and>
                   ss' = ss @ [log_softmax (joiner m e d) ! v]" by (simp add: greedy_row_def Let_def)
    with False v show ?thesis by (simp add: is_sentinel_iff)
  qed
qed

lemma greedy_step_rows:
  assumes step: "greedy_step m enc t b st = Inr st'"
    and len: "length (g_hyps st) = n" "length (g_timestamps st) = n" "length (g_scores st) = n"
    and j: "j < n" "j < length (slice enc (g_offset st) (g_offset st + b))"
  shows "\<exists>v. argmax (log_softmax (joiner m (slice enc (g_offset st) (g_offset st + b) ! j)
                                   (take b (g_decoder_out st) ! j))) = Inr v \<and>
             (if int v = blank_id m \<or> unk_id m = Some (int v)
              then g_hyps st' ! j = g_hyps st ! j \<and> g_timestamps st' ! j = g_timestamps st ! j \<and>
                   g_scores st' ! j = g_scores st ! j
              else g_hyps st' ! j = g_hyps st ! j @ [int v] \<and>
                   g_timestamps st' ! j = g_timestamps st ! j @ [t] \<and>
                   g_scores st' ! j = g_scores st ! j @
                     [log_softmax (joiner m (slice enc (g_offset st) (g_offset st + b) ! j)
                                     (take b (g_decoder_out st) ! j)) ! v])"
proof -
  from greedy_step_char(4)[OF step len] j
  have "greedy_row m t (slice enc (g_offset st) (g_offset st + b) ! j) (take b (g_decoder_out st) ! j)
          (g_hyps st ! j, g_timestamps st ! j, g_scores st ! j)
        = Inr (g_hyps st' ! j, g_timestamps st' ! j, g_scores st' ! j)" by blast
  then show ?thesis by (rule greedy_row_char)
qed

lemma singleton_nth: "length xs = Suc 0 \<Longrightarrow> xs = [xs ! 0]"
  by (cases xs) simp_all

lemma greedy_single_frame:
  assumes ok: "sort_ok sort_desc"
    and run: "greedy_search_batch sort_desc m [[e]] [1] = (calls, Inr res)"
  defines "h0 \<equiv> replicate (context_size m - 1) (- 1) @ [blank_id m]"
  defines "lp \<equiv> log_softmax (joiner m (encoder_proj m e) (decoder_proj m (decoder m h0)))"
  shows "\<exists>v. argmax lp = Inr v \<and>
           (if int v = blank_id m \<or> unk_id m = Some (int v)
            then hyps res = [drop (context_size m) h0] \<and> timestamps res = [[]] \<and> scores res = [[]]
            else hyps res = [drop (context_size m) (h0 @ [int v])] \<and> timestamps res = [[0]] \<and>
                 scores res = [[lp ! v]])"
proof -
  define st0 where "st0 = \<lparr>g_hyps = [h0], g_timestamps = [[]], g_scores = [[]],
      g_decoder_out = decoder_batch m [h0], g_offset = 0, g_calls = 3\<rparr>"
  from run obtain st where
    step: "greedy_step m [encoder_proj m e] 0 1 st0 = Inr st"
    and res: "make_results [0] 1 (map (drop (context_size m)) (g_hyps st)) (g_timestamps st)
                (g_scores st) = Inr res"
    by (auto simp: greedy_search_batch_def pack_single[OF ok] Let_def st0_def h0_def
        split: sum.splits prod.splits)
  have len: "length (g_hyps st0) = 1" "length (g_timestamps st0) = 1" "length (g_scores st0) = 1"
    by (simp_all add: st0_def)
  from greedy_step_char(2)[OF step len]
  have l: "length (g_hyps st) = 1" "length (g_timestamps st) = 1" "length (g_scores st) = 1"
    by simp_all
  have j: "0 < (1::nat)" "0 < length (slice [encoder_proj m e] (g_offset st0) (g_offset st0 + 1))"
    by (simp_all add: slice_def st0_def)
  from greedy_step_rows[OF step len j] obtain v where
    v: "argmax lp = Inr v"
    and rows: "if int v = blank_id m \<or> unk_id m = Some (int v)
              then g_hyps st ! 0 = h0 \<and> g_timestamps st ! 0 = [] \<and> g_scores st ! 0 = []
              else g_hyps st ! 0 = h0 @ [int v] \<and> g_timestamps st ! 0 = [] @ [0] \<and>
                   g_scores st ! 0 = [] @ [lp ! v]"
    by (auto simp: st0_def slice_def decoder_batch_def lp_def)
  from make_results_Inr[OF res] l
  have r: "length (hyps res) = 1" "length (timestamps res) = 1" "length (scores res) = 1"
    "hyps res ! 0 = drop (context_size m) (g_hyps st ! 0)"
    "timestamps res ! 0 = g_timestamps st ! 0" "scores res ! 0 = g_scores st ! 0"
    by simp_all
  from r have "hyps res = [drop (context_size m) (g_hyps st ! 0)]"
    "timestamps res = [g_timestamps st ! 0]" "scores res = [g_scores st ! 0]"
    using singleton_nth[of "hyps res"] singleton_nth[of "timestamps res"]
      singleton_nth[of "scores res"] by simp_all
  with rows v show ?thesis by (cases "int v = blank_id m \<or> unk_id m = Some (int v)") auto
qed

lemma last_n_replicate: "last_n c (replicate c x) = replicate c x"
  by (simp add: last_n_def)

lemma beam_step_single_frame:
  defines "row \<equiv> \<lambda>m temperature e. log_softmax (map (\<lambda>x. x / temperature)
      (joiner m e (decoder_proj m (decoder m (replicate (context_size m) (blank_id m))))))"
  assumes step: "beam_step topk m [e] beam temperature t 1
             \<lparr>b_B = [add [] (initial_hypothesis m)], b_finalized = [], b_offset = 0, b_calls = c,
              b_merged = []\<rparr> = Inr st"
  shows "\<exists>r. beam_add_all m t (length (row m temperature e)) [initial_hypothesis m]
               (row m temperature e) (fst (topk beam (row m temperature e)))
               (snd (topk beam (row m temperature e)))
               [0..<length (snd (topk beam (row m temperature e)))] ([], []) = Inr r \<and>
             b_B st = [fst r] \<and> b_finalized st = []"
proof -
  have B0: "add [] (initial_hypothesis m) = [(key (initial_hypothesis m), initial_hypothesis m)]"
    by (simp add: add_def contains_def)
  have ids: "row_splits_to_row_ids [0, Suc 0] = [0]"
    by (simp add: row_splits_to_row_ids_def)
  have ih: "ys (initial_hypothesis m) = replicate (context_size m) (blank_id m)"
    "log_prob (initial_hypothesis m) = 0"
    by (simp_all add: initial_hypothesis_def)
  from step show ?thesis
    unfolding beam_step_def B0 Let_def
    by (simp add: ids dict_values_def slice_def at_index_def joiner_batch_def decoder_batch_def
        add_inplace_def reshape_view_def read_flat_def get_hyps_row_splits_def ih
        last_n_replicate beam_utterance_def row_def Let_def case_prod_beta
        split: sum.splits if_splits) auto
qed

lemma beam_single_frame:
  assumes ok: "sort_ok sort_desc"
    and run: "modified_beam_search topk sort_desc m [[e]] [1] beam temperature = (calls, Inr res)"
  defines "row \<equiv> log_softmax (map (\<lambda>x. x / temperature)
      (joiner m (encoder_proj m e)
         (decoder_proj m (decoder m (replicate (context_size m) (blank_id m))))))"
  assumes tk: "snd (topk beam row) = [idx]"
  shows "if int idx = blank_id m \<or> unk_id m = Some (int idx)
         then hyps res = [[]] \<and> timestamps res = [[]] \<and> scores res = [[]]
         else hyps res = [[int idx]] \<and> timestamps res = [[0]] \<and> scores res = [[row ! idx]]"
proof -
  from run obtain st best where
    step: "beam_step topk m [encoder_proj m e] beam temperature 0 1
             \<lparr>b_B = [add [] (initial_hypothesis m)], b_finalized = [], b_offset = 0, b_calls = 1,
              b_merged = []\<rparr> = Inr st"
    and best: "map_result (get_most_probable True) (b_B st @ b_finalized st) = Inr best"
    and res: "make_results [0] 1 (map (\<lambda>h. drop (context_size m) (ys h)) best)
                (map timestamp best) (map hyp_scores best) = Inr res"
    by (auto simp: modified_beam_search_def beam_search_loop_def pack_single[OF ok] Let_def
        split: sum.splits prod.splits)
  from beam_step_single_frame[OF step, folded row_def] tk obtain B' mg where
    all: "beam_add_all m 0 (length row) [initial_hypothesis m] row (fst (topk beam row)) [idx]
            [0] ([], []) = Inr (B', mg)"
    and B: "b_B st = [B']" "b_finalized st = []"
    by auto
  from all obtain h' where
    nh: "new_hypothesis m 0 (length row) [initial_hypothesis m] row (fst (topk beam row)) [idx] 0
         = Inr h'"
    and B': "B' = add [] h'"
    by (auto split: sum.splits)
  note ch = new_hypothesis_char[OF nh]
  from ch have d: "idx div length row = 0" by simp
  have md: "idx mod length row = idx"
  proof (cases "length row = 0")
    case True
    then show ?thesis by simp
  next
    case False
    with d show ?thesis by (simp add: div_eq_0_iff)
  qed
  have ih: "ys (initial_hypothesis m) = replicate (context_size m) (blank_id m)"
    "timestamp (initial_hypothesis m) = []" "hyp_scores (initial_hypothesis m) = []"
    by (simp_all add: initial_hypothesis_def)
  from ch have h': "if int idx = blank_id m \<or> unk_id m = Some (int idx)
          then ys h' = replicate (context_size m) (blank_id m) \<and> timestamp h' = [] \<and>
               hyp_scores h' = []
          else ys h' = replicate (context_size m) (blank_id m) @ [int idx] \<and>
               timestamp h' = [0] \<and> hyp_scores h' = [row ! idx]"
    by (simp add: d md ih)
  have "add [] h' = [(key h', h')]" by (simp add: add_def contains_def)
  with best B B' have bb: "best = [h']"
    by (auto simp: get_most_probable_def dict_values_def)
  from make_results_Inr[OF res]
  have r: "length (hyps res) = Suc 0" "length (timestamps res) = Suc 0"
    "length (scores res) = Suc 0"
    "hyps res ! 0 = drop (context_size m) (ys h')"
    "timestamps res ! 0 = timestamp h'" "scores res ! 0 = hyp_scores h'"
    by (simp_all add: bb)
  from r have "hyps res = [drop (context_size m) (ys h')]"
    "timestamps res = [timestamp h']" "scores res = [hyp_scores h']"
    using singleton_nth[of "hyps res"] singleton_nth[of "timestamps res"]
      singleton_nth[of "scores res"] by simp_all
  with h' show ?thesis
    by (cases "int idx = blank_id m \<or> unk_id m = Some (int idx)") simp_all
qed

lemma sort_ok_argsort_desc: "sort_ok argsort_desc"
proof -
  have "\<And>ls :: int list. sorted_wrt (\<lambda>a b. b \<le> a) (map (\<lambda>i. ls ! i) (argsort_desc ls))"
  proof -
    fix ls :: "int list"
    have "sorted (map (\<lambda>i. - (ls ! i)) (argsort_desc ls))"
      unfolding argsort_desc_def by (rule sorted_sort_key)
    then show "sorted_wrt (\<lambda>a b. b \<le> a) (map (\<lambda>i. ls ! i) (argsort_desc ls))"
      by (simp add: sorted_wrt_map)
  qed
  then show ?thesis by (simp add: sort_ok_def) (simp add: argsort_desc_def)
qed

text \<open>
  Claim C9. A model without an \<open>unk_id\<close> attribute makes both decoders use the blank ID
  as the unknown sentinel: each decoder behaves as with \<open>unk_id\<close> set to the blank ID, and
  its skip test compares the chosen token with the blank ID only. In one step of
  \<open>greedy_search_batch\<close> the row of an utterance stays as it is when its arg-max token is
  the blank ID or the \<open>unk_id\<close> that the model defines, and otherwise gets that token, the
  frame index and the token's log-prob appended; the same holds for the hypothesis that
  \<open>modified_beam_search\<close> builds from a selected candidate. On a batch of one utterance
  with one frame, the result of \<open>greedy_search_batch\<close> is the arg-max token unless it is
  the blank ID or the defined \<open>unk_id\<close>, and so is the result of
  \<open>modified_beam_search\<close> for the single candidate that \<open>topk\<close> selects. So a token
  other than the blank ID is suppressed only if the model defines it as its \<open>unk_id\<close>.
\<close>

theorem unk_id_defaults_to_blank:
  "(unk_id m = None \<longrightarrow>
      get_unk_id m = blank_id m \<and> (is_sentinel m u \<longleftrightarrow> u = blank_id m) \<and>
      greedy_search_batch sort_desc m encoder_out encoder_out_lens =
        greedy_search_batch sort_desc (m\<lparr>unk_id := Some (blank_id m)\<rparr>) encoder_out encoder_out_lens \<and>
      modified_beam_search topk sort_desc m encoder_out encoder_out_lens beam temperature =
        modified_beam_search topk sort_desc (m\<lparr>unk_id := Some (blank_id m)\<rparr>)
          encoder_out encoder_out_lens beam temperature) \<and>
   (is_sentinel m u \<and> u \<noteq> blank_id m \<longrightarrow> unk_id m = Some u) \<and>
   (greedy_step m enc t b st = Inr st' \<and> length (g_hyps st) = n \<and>
    length (g_timestamps st) = n \<and> length (g_scores st) = n \<and> j < n \<and>
    j < length (slice enc (g_offset st) (g_offset st + b)) \<longrightarrow>
      (\<exists>v. argmax (log_softmax (joiner m (slice enc (g_offset st) (g_offset st + b) ! j)
                                   (take b (g_decoder_out st) ! j))) = Inr v \<and>
           (if int v = blank_id m \<or> unk_id m = Some (int v)
            then g_hyps st' ! j = g_hyps st ! j \<and> g_timestamps st' ! j = g_timestamps st ! j \<and>
                 g_scores st' ! j = g_scores st ! j
            else g_hyps st' ! j = g_hyps st ! j @ [int v] \<and>
                 g_timestamps st' ! j = g_timestamps st ! j @ [t] \<and>
                 g_scores st' ! j = g_scores st ! j @
                   [log_softmax (joiner m (slice enc (g_offset st) (g_offset st + b) ! j)
                                   (take b (g_decoder_out st) ! j)) ! v]))) \<and>
   (new_hypothesis m t vocab_size A_i current_log_probs topk_log_probs topk_indexes k = Inr new_hyp
      \<longrightarrow>
      (if int (topk_indexes ! k mod vocab_size) = blank_id m \<or>
          unk_id m = Some (int (topk_indexes ! k mod vocab_size))
       then ys new_hyp = ys (A_i ! (topk_indexes ! k div vocab_size)) \<and>
            timestamp new_hyp = timestamp (A_i ! (topk_indexes ! k div vocab_size)) \<and>
            hyp_scores new_hyp = hyp_scores (A_i ! (topk_indexes ! k div vocab_size))
       else ys new_hyp = ys (A_i ! (topk_indexes ! k div vocab_size)) @
                           [int (topk_indexes ! k mod vocab_size)] \<and>
            timestamp new_hyp = timestamp (A_i ! (topk_indexes ! k div vocab_size)) @ [t] \<and>
            hyp_scores new_hyp = hyp_scores (A_i ! (topk_indexes ! k div vocab_size)) @
                           [current_log_probs ! (topk_indexes ! k)])) \<and>
   (sort_ok sort_desc \<and> greedy_search_batch sort_desc m [[e]] [1] = (calls, Inr res) \<longrightarrow>
      (\<exists>v. argmax (log_softmax (joiner m (encoder_proj m e)
               (decoder_proj m (decoder m
                  (replicate (context_size m - 1) (- 1) @ [blank_id m]))))) = Inr v \<and>
           (if int v = blank_id m \<or> unk_id m = Some (int v)
            then hyps res = [drop (context_size m)
                               (replicate (context_size m - 1) (- 1) @ [blank_id m])] \<and>
                 timestamps res = [[]] \<and> scores res = [[]]
            else hyps res = [drop (context_size m)
                               ((replicate (context_size m - 1) (- 1) @ [blank_id m]) @ [int v])] \<and>
                 timestamps res = [[0]] \<and>
                 scores res = [[log_softmax (joiner m (encoder_proj m e)
                    (decoder_proj m (decoder m
                       (replicate (context_size m - 1) (- 1) @ [blank_id m])))) ! v]]))) \<and>
   (sort_ok sort_desc \<and>
    modified_beam_search topk sort_desc m [[e]] [1] beam temperature = (calls', Inr res') \<and>
    snd (topk beam (log_softmax (map (\<lambda>x. x / temperature)
           (joiner m (encoder_proj m e)
              (decoder_proj m (decoder m (replicate (context_size m) (blank_id m)))))))) = [idx]
      \<longrightarrow>
      (if int idx = blank_id m \<or> unk_id m = Some (int idx)
       then hyps res' = [[]] \<and> timestamps res' = [[]] \<and> scores res' = [[]]
       else hyps res' = [[int idx]] \<and> timestamps res' = [[0]] \<and>
            scores res' = [[log_softmax (map (\<lambda>x. x / temperature)
               (joiner m (encoder_proj m e)
                  (decoder_proj m (decoder m (replicate (context_size m) (blank_id m)))))) ! idx]]))"
proof (intro conjI impI)
  assume n: "unk_id m = None"
  show "get_unk_id m = blank_id m" using n by (simp add: get_unk_id_def)
  show "is_sentinel m u \<longleftrightarrow> u = blank_id m" using n by (rule is_sentinel_no_unk)
  show "greedy_search_batch sort_desc m encoder_out encoder_out_lens =
        greedy_search_batch sort_desc (m\<lparr>unk_id := Some (blank_id m)\<rparr>) encoder_out encoder_out_lens"
    by (rule greedy_search_batch_cong[OF is_sentinel_default[OF n], symmetric])
  show "modified_beam_search topk sort_desc m encoder_out encoder_out_lens beam temperature =
        modified_beam_search topk sort_desc (m\<lparr>unk_id := Some (blank_id m)\<rparr>)
          encoder_out encoder_out_lens beam temperature"
    by (rule modified_beam_search_cong[OF is_sentinel_default[OF n], symmetric])
next
  assume "is_sentinel m u \<and> u \<noteq> blank_id m"
  then show "unk_id m = Some u" using is_sentinel_second by blast
next
  assume a: "greedy_step m enc t b st = Inr st' \<and> length (g_hyps st) = n \<and>
    length (g_timestamps st) = n \<and> length (g_scores st) = n \<and> j < n \<and>
    j < length (slice enc (g_offset st) (g_offset st + b))"
  show "\<exists>v. argmax (log_softmax (joiner m (slice enc (g_offset st) (g_offset st + b) ! j)
                                   (take b (g_decoder_out st) ! j))) = Inr v \<and>
           (if int v = blank_id m \<or> unk_id m = Some (int v)
            then g_hyps st' ! j = g_hyps st ! j \<and> g_timestamps st' ! j = g_timestamps st ! j \<and>
                 g_scores st' ! j = g_scores st ! j
            else g_hyps st' ! j = g_hyps st ! j @ [int v] \<and>
                 g_timestamps st' ! j = g_timestamps st ! j @ [t] \<and>
                 g_scores st' ! j = g_scores st ! j @
                   [log_softmax (joiner m (slice enc (g_offset st) (g_offset st + b) ! j)
                                   (take b (g_decoder_out st) ! j)) ! v])"
    by (rule greedy_step_rows) (use a in blast)+
next
  assume a: "new_hypothesis m t vocab_size A_i current_log_probs topk_log_probs topk_indexes k
             = Inr new_hyp"
  from new_hypothesis_char[OF a]
  show "if int (topk_indexes ! k mod vocab_size) = blank_id m \<or>
          unk_id m = Some (int (topk_indexes ! k mod vocab_size))
       then ys new_hyp = ys (A_i ! (topk_indexes ! k div vocab_size)) \<and>
            timestamp new_hyp = timestamp (A_i ! (topk_indexes ! k div vocab_size)) \<and>
            hyp_scores new_hyp = hyp_scores (A_i ! (topk_indexes ! k div vocab_size))
       else ys new_hyp = ys (A_i ! (topk_indexes ! k div vocab_size)) @
                           [int (topk_indexes ! k mod vocab_size)] \<and>
            timestamp new_hyp = timestamp (A_i ! (topk_indexes ! k div vocab_size)) @ [t] \<and>
            hyp_scores new_hyp = hyp_scores (A_i ! (topk_indexes ! k div vocab_size)) @
                           [current_log_probs ! (topk_indexes ! k)]"
    by blast
next
  assume a: "sort_ok sort_desc \<and> greedy_search_batch sort_desc m [[e]] [1] = (calls, Inr res)"
  then have ok: "sort_ok sort_desc"
    and run: "greedy_search_batch sort_desc m [[e]] [1] = (calls, Inr res)" by simp_all
  show "\<exists>v. argmax (log_softmax (joiner m (encoder_proj m e)
               (decoder_proj m (decoder m
                  (replicate (context_size m - 1) (- 1) @ [blank_id m]))))) = Inr v \<and>
           (if int v = blank_id m \<or> unk_id m = Some (int v)
            then hyps res = [drop (context_size m)
                               (replicate (context_size m - 1) (- 1) @ [blank_id m])] \<and>
                 timestamps res = [[]] \<and> scores res = [[]]
            else hyps res = [drop (context_size m)
                               ((replicate (context_size m - 1) (- 1) @ [blank_id m]) @ [int v])] \<and>
                 timestamps res = [[0]] \<and>
                 scores res = [[log_softmax (joiner m (encoder_proj m e)
                    (decoder_proj m (decoder m
                       (replicate (context_size m - 1) (- 1) @ [blank_id m])))) ! v]])"
    by (rule greedy_single_frame[OF ok run])
next
  assume a: "sort_ok sort_desc \<and>
    modified_beam_search topk sort_desc m [[e]] [1] beam temperature = (calls', Inr res') \<and>
    snd (topk beam (log_softmax (map (\<lambda>x. x / temperature)
           (joiner m (encoder_proj m e)
              (decoder_proj m (decoder m (replicate (context_size m) (blank_id m)))))))) = [idx]"
  then have ok: "sort_ok sort_desc"
    and run: "modified_beam_search topk sort_desc m [[e]] [1] beam temperature = (calls', Inr res')"
    and tk: "snd (topk beam (log_softmax (map (\<lambda>x. x / temperature)
           (joiner m (encoder_proj m e)
              (decoder_proj m (decoder m (replicate (context_size m) (blank_id m)))))))) = [idx]"
    by simp_all
  show "if int idx = blank_id m \<or> unk_id m = Some (int idx)
       then hyps res' = [[]] \<and> timestamps res' = [[]] \<and> scores res' = [[]]
       else hyps res' = [[int idx]] \<and> timestamps res' = [[0]] \<and>
            scores res' = [[log_softmax (map (\<lambda>x. x / temperature)
               (joiner m (encoder_proj m e)
                  (decoder_proj m (decoder m (replicate (context_size m) (blank_id m)))))) ! idx]]"
    by (rule beam_single_frame[OF ok run tk])
qed

lemma toy_pack_1: "pack_padded_sequence argsort_desc [[[7::int]]] [1] =
  Inr \<lparr>data = [[7]], batch_sizes = [1], sorted_indices = [0], unsorted_indices = [0]\<rparr>"
  by (rule pack_single[OF sort_ok_argsort_desc])

lemma toy_unk_fields:
  "blank_id (toy\<lparr>unk_id := Some 1\<rparr>) = 0" "unk_id (toy\<lparr>unk_id := Some 1\<rparr>) = Some 1"
  "context_size (toy\<lparr>unk_id := Some 1\<rparr>) = 2"
  "decoder (toy\<lparr>unk_id := Some 1\<rparr>) ctx = ctx" "decoder_proj (toy\<lparr>unk_id := Some 1\<rparr>) d = d"
  "encoder_proj (toy\<lparr>unk_id := Some 1\<rparr>) e = e"
  "joiner (toy\<lparr>unk_id := Some 1\<rparr>) e d = joiner toy e d"
  by (simp_all add: toy_def)

lemma toy_greedy_step0:
  "greedy_step toy [[7]] 0 1
     \<lparr>g_hyps = [[- 1, 0]], g_timestamps = [[]], g_scores = [[]],
      g_decoder_out = [[- 1, 0]], g_offset = 0, g_calls = 3\<rparr>
   = Inr \<lparr>g_hyps = [[- 1, 0, 1]], g_timestamps = [[0]], g_scores = [[2 - toy_Z]],
          g_decoder_out = [[0, 1]], g_offset = 1, g_calls = 6\<rparr>"
  by (simp add: greedy_step_def toy_eval)

lemma toy_greedy_run_1:
  "greedy_search_batch argsort_desc toy [[[7]]] [1] =
     (6, Inr \<lparr>timestamps = [[0]], hyps = [[1]], scores = [[2 - toy_Z]]\<rparr>)"
  by (simp add: greedy_search_batch_def toy_pack_1 greedy_step_def toy_eval)

lemma toy_unk_greedy_run_1:
  "greedy_search_batch argsort_desc (toy\<lparr>unk_id := Some 1\<rparr>) [[[7]]] [1] =
     (4, Inr \<lparr>timestamps = [[]], hyps = [[]], scores = [[]]\<rparr>)"
  by (simp add: greedy_search_batch_def toy_pack_1 greedy_step_def toy_unk_fields toy_eval)

lemma toy_new_hypothesis:
  "new_hypothesis toy 0 3 [\<lparr>ys = [0, 0], hyp_scores = [], log_prob = 0, timestamp = []\<rparr>]
     [1 - toy_Z, 2 - toy_Z, 0 - toy_Z] [2 - toy_Z] [1] 0
   = Inr \<lparr>ys = [0, 0, 1], hyp_scores = [2 - toy_Z], log_prob = 2 - toy_Z, timestamp = [0]\<rparr>"
  by (simp add: new_hypothesis_def toy_eval)

lemma toy_topk_1: "topk_first 1 [1 - toy_Z, 2 - toy_Z, 0 - toy_Z] = ([2 - toy_Z], [1])"
  by (simp add: topk_first_def upt_3)

lemma toy_beam_run_1:
  "modified_beam_search topk_first argsort_desc toy [[[7]]] [1] 1 1 =
     (4, Inr \<lparr>timestamps = [[0]], hyps = [[1]], scores = [[2 - toy_Z]]\<rparr>)"
  by (simp add: modified_beam_search_def beam_search_loop_def toy_pack_1 toy_beam_eval toy_eval
      upt_3 get_most_probable_def)

lemma toy_unk_initial:
  "initial_hypothesis (toy\<lparr>unk_id := Some 1\<rparr>) = \<lparr>ys = [0, 0], hyp_scores = [], log_prob = 0, timestamp = []\<rparr>"
  by (simp add: initial_hypothesis_def toy_unk_fields numeral_2_eq_2)

lemma toy_unk_beam_run_1:
  "modified_beam_search topk_first argsort_desc (toy\<lparr>unk_id := Some 1\<rparr>) [[[7]]] [1] 1 1 =
     (4, Inr \<lparr>timestamps = [[]], hyps = [[]], scores = [[]]\<rparr>)"
  by (simp add: modified_beam_search_def beam_search_loop_def toy_pack_1 toy_unk_initial
      toy_beam_eval toy_unk_fields toy_eval upt_3 get_most_probable_def)

theorem unk_id_defaults_to_blank_witness:
  "unk_id toy = None \<and> get_unk_id toy = blank_id toy \<and> is_sentinel toy 0 \<and>
   greedy_search_batch argsort_desc toy [[[7]]] [1] =
     greedy_search_batch argsort_desc (toy\<lparr>unk_id := Some (blank_id toy)\<rparr>) [[[7]]] [1] \<and>
   modified_beam_search topk_first argsort_desc toy [[[7]]] [1] 1 1 =
     modified_beam_search topk_first argsort_desc (toy\<lparr>unk_id := Some (blank_id toy)\<rparr>)
       [[[7]]] [1] 1 1 \<and>
   is_sentinel (toy\<lparr>unk_id := Some 1\<rparr>) 1 \<and> 1 \<noteq> blank_id (toy\<lparr>unk_id := Some 1\<rparr>) \<and>
   unk_id (toy\<lparr>unk_id := Some 1\<rparr>) = Some 1 \<and>
   greedy_step toy [[7]] 0 1
     \<lparr>g_hyps = [[- 1, 0]], g_timestamps = [[]], g_scores = [[]],
      g_decoder_out = [[- 1, 0]], g_offset = 0, g_calls = 3\<rparr>
   = Inr \<lparr>g_hyps = [[- 1, 0, 1]], g_timestamps = [[0]], g_scores = [[2 - toy_Z]],
          g_decoder_out = [[0, 1]], g_offset = 1, g_calls = 6\<rparr> \<and>
   argmax (log_softmax (joiner toy [7] [- 1, 0])) = Inr 1 \<and> 1 \<noteq> blank_id toy \<and>
   new_hypothesis toy 0 3 [\<lparr>ys = [0, 0], hyp_scores = [], log_prob = 0, timestamp = []\<rparr>]
     [1 - toy_Z, 2 - toy_Z, 0 - toy_Z] [2 - toy_Z] [1] 0
   = Inr \<lparr>ys = [0, 0, 1], hyp_scores = [2 - toy_Z], log_prob = 2 - toy_Z, timestamp = [0]\<rparr> \<and>
   sort_ok argsort_desc \<and>
   greedy_search_batch argsort_desc toy [[[7]]] [1] =
     (6, Inr \<lparr>timestamps = [[0]], hyps = [[1]], scores = [[2 - toy_Z]]\<rparr>) \<and>
   snd (topk_first 1 (log_softmax (map (\<lambda>x. x / 1) (joiner toy [7] [0, 0])))) = [1] \<and>
   modified_beam_search topk_first argsort_desc toy [[[7]]] [1] 1 1 =
     (4, Inr \<lparr>timestamps = [[0]], hyps = [[1]], scores = [[2 - toy_Z]]\<rparr>) \<and>
   greedy_search_batch argsort_desc (toy\<lparr>unk_id := Some 1\<rparr>) [[[7]]] [1] =
     (4, Inr \<lparr>timestamps = [[]], hyps = [[]], scores = [[]]\<rparr>) \<and>
   modified_beam_search topk_first argsort_desc (toy\<lparr>unk_id := Some 1\<rparr>) [[[7]]] [1] 1 1 =
     (4, Inr \<lparr>timestamps = [[]], hyps = [[]], scores = [[]]\<rparr>)"
proof -
  note t1 = unk_id_defaults_to_blank[where m = toy and u = 0 and sort_desc = argsort_desc
      and encoder_out = "[[[7]]]" and encoder_out_lens = "[1]" and topk = topk_first
      and beam = 1 and temperature = 1 and enc = "[[7]]" and t = 0 and b = 1
      and st = "\<lparr>g_hyps = [[- 1, 0]], g_timestamps = [[]], g_scores = [[]],
                 g_decoder_out = [[- 1, 0]], g_offset = 0, g_calls = 3\<rparr>"
      and st' = "\<lparr>g_hyps = [[- 1, 0, 1]], g_timestamps = [[0]], g_scores = [[2 - toy_Z]],
                  g_decoder_out = [[0, 1]], g_offset = 1, g_calls = 6\<rparr>"
      and n = 1 and j = 0 and vocab_size = 3
      and A_i = "[\<lparr>ys = [0, 0], hyp_scores = [], log_prob = 0, timestamp = []\<rparr>]"
      and current_log_probs = "[1 - toy_Z, 2 - toy_Z, 0 - toy_Z]"
      and topk_log_probs = "[2 - toy_Z]" and topk_indexes = "[1]" and k = 0
      and new_hyp = "\<lparr>ys = [0, 0, 1], hyp_scores = [2 - toy_Z], log_prob = 2 - toy_Z,
                       timestamp = [0]\<rparr>"
      and e = "[7]" and calls = 6
      and res = "\<lparr>timestamps = [[0]], hyps = [[1]], scores = [[2 - toy_Z]]\<rparr>"
      and calls' = 4
      and res' = "\<lparr>timestamps = [[0]], hyps = [[1]], scores = [[2 - toy_Z]]\<rparr>"
      and idx = 1]
  note t2 = unk_id_defaults_to_blank[where m = "toy\<lparr>unk_id := Some 1\<rparr>" and u = 1
      and sort_desc = argsort_desc and topk = topk_first and beam = 1 and temperature = 1
      and e = "[7]" and calls = 4
      and res = "\<lparr>timestamps = [[]], hyps = [[]], scores = [[]]\<rparr>"
      and calls' = 4
      and res' = "\<lparr>timestamps = [[]], hyps = [[]], scores = [[]]\<rparr>"
      and idx = 1]
  have n: "unk_id toy = None" by (simp add: toy_fields)
  have s: "is_sentinel (toy\<lparr>unk_id := Some 1\<rparr>) 1 \<and> 1 \<noteq> blank_id (toy\<lparr>unk_id := Some 1\<rparr>)"
    by (simp add: toy_unk_fields is_sentinel_def get_unk_id_def)
  have a: "argmax (log_softmax (joiner toy [7] [- 1, 0])) = Inr 1"
    by (simp add: toy_fields toy_log_softmax)
  have k: "snd (topk_first 1 (log_softmax (map (\<lambda>x. x / 1) (joiner toy [7] [0, 0])))) = [1]"
    by (simp add: toy_fields toy_log_softmax toy_topk_1[simplified])
  from t1 n have c1: "get_unk_id toy = blank_id toy \<and> is_sentinel toy 0 \<and>
     greedy_search_batch argsort_desc toy [[[7]]] [1] =
       greedy_search_batch argsort_desc (toy\<lparr>unk_id := Some (blank_id toy)\<rparr>) [[[7]]] [1] \<and>
     modified_beam_search topk_first argsort_desc toy [[[7]]] [1] 1 1 =
       modified_beam_search topk_first argsort_desc (toy\<lparr>unk_id := Some (blank_id toy)\<rparr>)
         [[[7]]] [1] 1 1"
    by (simp add: toy_fields)
  from t2 s have c2: "unk_id (toy\<lparr>unk_id := Some 1\<rparr>) = Some 1" by blast
  show ?thesis
    using n s a k c1 c2 toy_greedy_step0 toy_new_hypothesis sort_ok_argsort_desc
      toy_greedy_run_1 toy_beam_run_1 toy_unk_greedy_run_1 toy_unk_beam_run_1
    by (simp add: toy_fields)
qed

section \<open>The shape of the results\<close>

text \<open>
  Claim C6. Whenever \<open>greedy_search_batch\<close> (for a model whose context size is at least
  one, as the decoder's padding \<open>[-1] * (context_size - 1) + [blank_id]\<close> presupposes) or
  \<open>modified_beam_search\<close> returns a \<open>DecodingResults\<close>, it has one entry per utterance in
  each of its three lists, and for every utterance the timestamps, the tokens and the
  scores have the same length.
\<close>

theorem results_have_equal_lengths:
  assumes "(greedy_search_batch sort_desc m encoder_out encoder_out_lens = (calls, Inr res)
              \<and> 0 < context_size m)
           \<or> modified_beam_search topk sort_desc m encoder_out encoder_out_lens beam temperature
              = (calls, Inr res)"
  shows "length (timestamps res) = length encoder_out \<and> length (hyps res) = length encoder_out \<and>
         length (scores res) = length encoder_out \<and>
         (\<forall>i<length encoder_out.
            length (timestamps res ! i) = length (hyps res ! i) \<and>
            length (hyps res ! i) = length (scores res ! i))"
proof -
  from assms have rows:
    "length (hyps res) = length encoder_out \<and> length (timestamps res) = length encoder_out \<and>
     length (scores res) = length encoder_out \<and>
     (\<forall>i<length encoder_out. \<exists>h t.
        row_inv m (context_size m) t h (timestamps res ! i) (scores res ! i) \<and>
        hyps res ! i = drop (context_size m) h)"
    using greedy_search_batch_rows modified_beam_search_row_inv by blast
  have "\<forall>i<length encoder_out.
            length (timestamps res ! i) = length (hyps res ! i) \<and>
            length (hyps res ! i) = length (scores res ! i)"
  proof (intro allI impI)
    fix i assume "i < length encoder_out"
    with rows obtain h t where
      "row_inv m (context_size m) t h (timestamps res ! i) (scores res ! i)"
      "hyps res ! i = drop (context_size m) h" by blast
    then show "length (timestamps res ! i) = length (hyps res ! i) \<and>
               length (hyps res ! i) = length (scores res ! i)"
      by (simp add: row_inv_def)
  qed
  with rows show ?thesis by simp
qed

theorem results_have_equal_lengths_witness:
  "(\<exists>res. greedy_search_batch argsort_desc toy [[[7], [8], [7]]] [3] = (10, Inr res) \<and>
      0 < context_size toy \<and>
      length (timestamps res) = 1 \<and> length (hyps res) = 1 \<and> length (scores res) = 1 \<and>
      length (timestamps res ! 0) = length (hyps res ! 0) \<and>
      length (hyps res ! 0) = length (scores res ! 0) \<and> length (hyps res ! 0) = 2) \<and>
   (\<exists>res. modified_beam_search topk_first argsort_desc toy [[[7], [8], [7]]] [3] 1 1 = (10, Inr res) \<and>
      length (timestamps res) = 1 \<and> length (hyps res) = 1 \<and> length (scores res) = 1 \<and>
      length (timestamps res ! 0) = length (hyps res ! 0) \<and>
      length (hyps res ! 0) = length (scores res ! 0) \<and> length (hyps res ! 0) = 2)"
proof -
  let ?g = "\<lparr>timestamps = [[0, 2]], hyps = [[1, 2]], scores = [[2 - toy_Z, 2 - toy_Z]]\<rparr>"
  let ?b = "\<lparr>timestamps = [[0, 2]], hyps = [[1, 2]], scores = [[2 - toy_Z, 6 - 3 * toy_Z]]\<rparr>"
  have c: "0 < context_size toy" by (simp add: toy_fields)
  from results_have_equal_lengths[where sort_desc = argsort_desc and m = toy and encoder_out = "[[[7], [8], [7]]]" and encoder_out_lens = "[3]" and calls = 10 and topk = topk_first and beam = 1 and temperature = 1 and res = "?g"]
    toy_greedy_run c
  have g: "length (timestamps ?g ! 0) = length (hyps ?g ! 0) \<and>
           length (hyps ?g ! 0) = length (scores ?g ! 0)" by simp
  from results_have_equal_lengths[where sort_desc = argsort_desc and m = toy and encoder_out = "[[[7], [8], [7]]]" and encoder_out_lens = "[3]" and calls = 10 and topk = topk_first and beam = 1 and temperature = 1 and res = "?b"] toy_beam1_run
  have b: "length (timestamps ?b ! 0) = length (hyps ?b ! 0) \<and>
           length (hyps ?b ! 0) = length (scores ?b ! 0)" by simp
  show ?thesis
    using g b toy_greedy_run toy_beam1_run c by simp
qed

text \<open>
  Claim C10. In the results of either decoder the timestamps of every utterance increase
  strictly: each emitted token's frame index is greater than the one before it.
\<close>

theorem timestamps_strictly_increase:
  assumes "(greedy_search_batch sort_desc m encoder_out encoder_out_lens = (calls, Inr res)
              \<and> 0 < context_size m)
           \<or> modified_beam_search topk sort_desc m encoder_out encoder_out_lens beam temperature
              = (calls, Inr res)"
  shows "\<forall>i<length encoder_out. sorted_wrt (<) (timestamps res ! i)"
proof (intro allI impI)
  fix i assume i: "i < length encoder_out"
  from assms have
    "\<forall>i<length encoder_out. \<exists>h t.
        row_inv m (context_size m) t h (timestamps res ! i) (scores res ! i) \<and>
        hyps res ! i = drop (context_size m) h"
    using greedy_search_batch_rows modified_beam_search_row_inv by blast
  with i obtain h t where "row_inv m (context_size m) t h (timestamps res ! i) (scores res ! i)"
    by blast
  then show "sorted_wrt (<) (timestamps res ! i)" by (simp add: row_inv_def)
qed

theorem timestamps_strictly_increase_witness:
  "(\<exists>res. greedy_search_batch argsort_desc toy [[[7], [8], [7]]] [3] = (10, Inr res) \<and>
      0 < context_size toy \<and> timestamps res = [[0, 2]] \<and> sorted_wrt (<) (timestamps res ! 0)) \<and>
   (\<exists>res. modified_beam_search topk_first argsort_desc toy [[[7], [8], [7]]] [3] 1 1 = (10, Inr res) \<and>
      timestamps res = [[0, 2]] \<and> sorted_wrt (<) (timestamps res ! 0))"
proof -
  let ?g = "\<lparr>timestamps = [[0, 2]], hyps = [[1, 2]], scores = [[2 - toy_Z, 2 - toy_Z]]\<rparr>"
  let ?b = "\<lparr>timestamps = [[0, 2]], hyps = [[1, 2]], scores = [[2 - toy_Z, 6 - 3 * toy_Z]]\<rparr>"
  have c: "0 < context_size toy" by (simp add: toy_fields)
  from timestamps_strictly_increase[where sort_desc = argsort_desc and m = toy and encoder_out = "[[[7], [8], [7]]]" and encoder_out_lens = "[3]" and calls = 10 and topk = topk_first and beam = 1 and temperature = 1 and res = "?g"]
    toy_greedy_run c
  have g: "sorted_wrt (<) (timestamps ?g ! 0)" by simp
  from timestamps_strictly_increase[where sort_desc = argsort_desc and m = toy and encoder_out = "[[[7], [8], [7]]]" and encoder_out_lens = "[3]" and calls = 10 and topk = topk_first and beam = 1 and temperature = 1 and res = "?b"] toy_beam1_run
  have b: "sorted_wrt (<) (timestamps ?b ! 0)" by simp
  show ?thesis
    using g b toy_greedy_run toy_beam1_run c by simp
qed

section \<open>Merging hypotheses\<close>

text \<open>
  Claim C1. \<open>HypothesisList.add\<close> on a key that is already stored replaces the stored
  hypothesis's \<open>log_prob\<close> by \<open>log (exp old + exp new)\<close> and keeps its tokens, scores and
  timestamps, its position and every other entry; on an absent key it appends the
  hypothesis unchanged. Consequently, when exactly two of the candidates selected for
  one utterance in one step produce the same token sequence, the hypothesis stored under
  their key is the earlier one with the log-domain sum of the two cumulative log-probs.
\<close>

theorem add_merges_by_logaddexp:
  "(getitem self (key hyp) = Some old \<longrightarrow>
      getitem (add self hyp) (key hyp)
        = Some (old\<lparr>log_prob := ln (exp (log_prob old) + exp (log_prob hyp))\<rparr>) \<and>
      map fst (add self hyp) = map fst self \<and>
      (\<forall>k. k \<noteq> key hyp \<longrightarrow> getitem (add self hyp) k = getitem self k)) \<and>
   (getitem self (key hyp) = None \<longrightarrow> add self hyp = self @ [(key hyp, hyp)]) \<and>
   (beam_add_all m t V A_i cur tlp tix [0..<length tix] ([], []) = Inr (B', mg) \<and>
    k1 < k2 \<and> k2 < length tix \<and>
    new_hypothesis m t V A_i cur tlp tix k1 = Inr h1 \<and>
    new_hypothesis m t V A_i cur tlp tix k2 = Inr h2 \<and> ys h1 = ys h2 \<and>
    (\<forall>k<length tix. k \<noteq> k1 \<longrightarrow> k \<noteq> k2 \<longrightarrow>
       (\<forall>h. new_hypothesis m t V A_i cur tlp tix k = Inr h \<longrightarrow> ys h \<noteq> ys h1)) \<longrightarrow>
      getitem B' (key h1)
        = Some (h1\<lparr>log_prob := ln (exp (log_prob h1) + exp (log_prob h2))\<rparr>))"
proof (intro conjI impI allI)
  assume "getitem self (key hyp) = Some old"
  then show "getitem (add self hyp) (key hyp)
        = Some (old\<lparr>log_prob := ln (exp (log_prob old) + exp (log_prob hyp))\<rparr>)"
    using getitem_add_merge[of self hyp old] by (simp add: logaddexp_def)
next
  assume "getitem self (key hyp) = Some old"
  then show "map fst (add self hyp) = map fst self" by (rule add_keys_merge)
next
  fix k assume "k \<noteq> key hyp"
  then show "getitem (add self hyp) k = getitem self k" by (rule getitem_add_other)
next
  assume "getitem self (key hyp) = None"
  then show "add self hyp = self @ [(key hyp, hyp)]" by (rule add_absent)
next
  assume a: "beam_add_all m t V A_i cur tlp tix [0..<length tix] ([], []) = Inr (B', mg) \<and>
    k1 < k2 \<and> k2 < length tix \<and>
    new_hypothesis m t V A_i cur tlp tix k1 = Inr h1 \<and>
    new_hypothesis m t V A_i cur tlp tix k2 = Inr h2 \<and> ys h1 = ys h2 \<and>
    (\<forall>k<length tix. k \<noteq> k1 \<longrightarrow> k \<noteq> k2 \<longrightarrow>
       (\<forall>h. new_hypothesis m t V A_i cur tlp tix k = Inr h \<longrightarrow> ys h \<noteq> ys h1))"
  then have run: "beam_add_all m t V A_i cur tlp tix [0..<length tix] ([], []) = Inr (B', mg)"
    and k: "k1 < k2" "k2 < length tix"
    and n1: "new_hypothesis m t V A_i cur tlp tix k1 = Inr h1"
    and n2: "new_hypothesis m t V A_i cur tlp tix k2 = Inr h2"
    and same: "ys h1 = ys h2"
    and others: "\<forall>k<length tix. k \<noteq> k1 \<longrightarrow> k \<noteq> k2 \<longrightarrow>
       (\<forall>h. new_hypothesis m t V A_i cur tlp tix k = Inr h \<longrightarrow> ys h \<noteq> ys h1)"
    by blast+
  from beam_add_all_foldl[OF run] obtain nhs where
    nhs: "map_result (new_hypothesis m t V A_i cur tlp tix) [0..<length tix] = Inr nhs"
    and B': "B' = foldl add [] nhs" by blast
  from map_result_Inr[OF nhs] have len: "length nhs = length tix"
    and el: "\<forall>i<length tix. new_hypothesis m t V A_i cur tlp tix i = Inr (nhs ! i)"
    by simp_all
  from el k n1 n2 have e1: "nhs ! k1 = h1" and e2: "nhs ! k2 = h2" by simp_all
  have "getitem (foldl add [] nhs) (key (nhs ! k1)) =
         Some ((nhs ! k1)\<lparr>log_prob := logaddexp (log_prob (nhs ! k1)) (log_prob (nhs ! k2))\<rparr>)"
  proof (rule two_paths_merge)
    show "k1 < k2" by (rule k(1))
    show "k2 < length nhs" using k(2) len by simp
    show "key (nhs ! k1) = key (nhs ! k2)" using same e1 e2 by (simp add: key_eq_iff)
    show "\<forall>k<length nhs. k \<noteq> k1 \<longrightarrow> k \<noteq> k2 \<longrightarrow> key (nhs ! k) \<noteq> key (nhs ! k1)"
      using others el len e1 by (simp add: key_eq_iff)
  qed
  then show "getitem B' (key h1)
        = Some (h1\<lparr>log_prob := ln (exp (log_prob h1) + exp (log_prob h2))\<rparr>)"
    by (simp add: B' e1 e2 logaddexp_def)
qed


theorem add_merges_by_logaddexp_witness:
  "getitem [(''0_0_1'', \<lparr>ys = [0, 0, 1], hyp_scores = [2 - toy_Z], log_prob = 4 - 2 * toy_Z,
                          timestamp = [0]\<rparr>)]
     (key \<lparr>ys = [0, 0, 1], hyp_scores = [3 - 2 * toy_Z], log_prob = 3 - 2 * toy_Z,
           timestamp = [1]\<rparr>)
     = Some \<lparr>ys = [0, 0, 1], hyp_scores = [2 - toy_Z], log_prob = 4 - 2 * toy_Z, timestamp = [0]\<rparr> \<and>
   getitem (add [(''0_0_1'', \<lparr>ys = [0, 0, 1], hyp_scores = [2 - toy_Z], log_prob = 4 - 2 * toy_Z,
                              timestamp = [0]\<rparr>)]
              \<lparr>ys = [0, 0, 1], hyp_scores = [3 - 2 * toy_Z], log_prob = 3 - 2 * toy_Z,
               timestamp = [1]\<rparr>) ''0_0_1''
     = Some \<lparr>ys = [0, 0, 1], hyp_scores = [2 - toy_Z],
             log_prob = ln (exp (4 - 2 * toy_Z) + exp (3 - 2 * toy_Z)), timestamp = [0]\<rparr> \<and>
   getitem [] (key \<lparr>ys = [0, 0], hyp_scores = [], log_prob = 0, timestamp = []\<rparr>) = None \<and>
   add [] \<lparr>ys = [0, 0], hyp_scores = [], log_prob = 0, timestamp = []\<rparr>
     = [(''0_0'', \<lparr>ys = [0, 0], hyp_scores = [], log_prob = 0, timestamp = []\<rparr>)] \<and>
   (\<exists>B' mg.
      beam_add_all toy 1 3
        [\<lparr>ys = [0, 0, 1], hyp_scores = [2 - toy_Z], log_prob = 2 - toy_Z, timestamp = [0]\<rparr>,
         \<lparr>ys = [0, 0], hyp_scores = [], log_prob = 1 - toy_Z, timestamp = []\<rparr>,
         \<lparr>ys = [0, 0, 2], hyp_scores = [0 - toy_Z], log_prob = 0 - toy_Z, timestamp = [0]\<rparr>]
        [4 - 2 * toy_Z, 3 - 2 * toy_Z, 2 - 2 * toy_Z, 2 - 2 * toy_Z, 3 - 2 * toy_Z, 1 - 2 * toy_Z,
         1 - 2 * toy_Z, 2 - 2 * toy_Z, 0 - 2 * toy_Z]
        [4 - 2 * toy_Z, 3 - 2 * toy_Z, 3 - 2 * toy_Z] [0, 1, 4] [0..<length [0, 1, 4 :: nat]] ([], [])
        = Inr (B', mg) \<and>
      getitem B' ''0_0_1''
        = Some \<lparr>ys = [0, 0, 1], hyp_scores = [2 - toy_Z],
                log_prob = ln (exp (4 - 2 * toy_Z) + exp (3 - 2 * toy_Z)), timestamp = [0]\<rparr>)"
proof -
  let ?hS = "\<lparr>ys = [0, 0, 1], hyp_scores = [2 - toy_Z], log_prob = 4 - 2 * toy_Z, timestamp = [0]\<rparr>"
  let ?hN = "\<lparr>ys = [0, 0, 1], hyp_scores = [3 - 2 * toy_Z], log_prob = 3 - 2 * toy_Z, timestamp = [1]\<rparr>"
  let ?h0 = "\<lparr>ys = [0, 0], hyp_scores = [], log_prob = 0, timestamp = []\<rparr>"
  let ?A = "[\<lparr>ys = [0, 0, 1], hyp_scores = [2 - toy_Z], log_prob = 2 - toy_Z, timestamp = [0]\<rparr>,
         \<lparr>ys = [0, 0], hyp_scores = [], log_prob = 1 - toy_Z, timestamp = []\<rparr>,
         \<lparr>ys = [0, 0, 2], hyp_scores = [0 - toy_Z], log_prob = 0 - toy_Z, timestamp = [0]\<rparr>]"
  let ?cur = "[4 - 2 * toy_Z, 3 - 2 * toy_Z, 2 - 2 * toy_Z, 2 - 2 * toy_Z, 3 - 2 * toy_Z, 1 - 2 * toy_Z,
         1 - 2 * toy_Z, 2 - 2 * toy_Z, 0 - 2 * toy_Z]"
  let ?tlp = "[4 - 2 * toy_Z, 3 - 2 * toy_Z, 3 - 2 * toy_Z]"
  let ?tix = "[0, 1, 4 :: nat]"
  let ?B = "[(''0_0_1'', \<lparr>ys = [0, 0, 1], hyp_scores = [2 - toy_Z],
                log_prob = logaddexp (4 - 2 * toy_Z) (3 - 2 * toy_Z), timestamp = [0]\<rparr>),
             (''0_0_1_1'', \<lparr>ys = [0, 0, 1, 1], hyp_scores = [2 - toy_Z, 3 - 2 * toy_Z],
                log_prob = 3 - 2 * toy_Z, timestamp = [0, 1]\<rparr>)]"
  let ?mg = "[(?hS, ?hN)]"
  have n0: "new_hypothesis toy 1 3 ?A ?cur ?tlp ?tix 0 = Inr ?hS"
    by (simp add: new_hypothesis_def toy_eval)
  have n1: "new_hypothesis toy 1 3 ?A ?cur ?tlp ?tix 1 =
            Inr \<lparr>ys = [0, 0, 1, 1], hyp_scores = [2 - toy_Z, 3 - 2 * toy_Z],
                 log_prob = 3 - 2 * toy_Z, timestamp = [0, 1]\<rparr>"
    by (simp add: new_hypothesis_def toy_eval)
  have n2: "new_hypothesis toy 1 3 ?A ?cur ?tlp ?tix 2 = Inr ?hN"
    by (simp add: new_hypothesis_def toy_eval)
  have len: "[0..<length ?tix] = [0, 1, 2]" by (simp add: upt_3)
  have run: "beam_add_all toy 1 3 ?A ?cur ?tlp ?tix [0..<length ?tix] ([], []) = Inr (?B, ?mg)"
    apply (simp only: len beam_add_all.simps n0 n1 n2 sum.case)
    apply (simp add: add_def contains_def merged_with_def getitem_def toy_keys)
    done
  have others: "\<forall>k<length ?tix. k \<noteq> 0 \<longrightarrow> k \<noteq> 2 \<longrightarrow>
       (\<forall>h. new_hypothesis toy 1 3 ?A ?cur ?tlp ?tix k = Inr h \<longrightarrow> ys h \<noteq> ys ?hS)"
  proof (intro allI impI)
    fix k h assume "k < length ?tix" "k \<noteq> 0" "k \<noteq> 2"
      and h: "new_hypothesis toy 1 3 ?A ?cur ?tlp ?tix k = Inr h"
    then have "k = 1" by simp
    with h n1 show "ys h \<noteq> ys ?hS" by simp
  qed
  have a: "getitem [(''0_0_1'', ?hS)] (key ?hN) = Some ?hS"
    by (simp add: getitem_def toy_keys)
  have b: "getitem [] (key ?h0) = None" by (simp add: getitem_def)
  from add_merges_by_logaddexp[where self = "[(''0_0_1'', ?hS)]" and hyp = ?hN and old = ?hS
      and m = toy and t = 1 and V = 3 and A_i = ?A and cur = ?cur and tlp = ?tlp and tix = ?tix
      and B' = ?B and mg = ?mg and ?k1.0 = 0 and ?k2.0 = 2 and ?h1.0 = ?hS and ?h2.0 = ?hN]
    a run n0 n2 others
  have c1: "getitem (add [(''0_0_1'', ?hS)] ?hN) (key ?hN)
              = Some (?hS\<lparr>log_prob := ln (exp (log_prob ?hS) + exp (log_prob ?hN))\<rparr>)"
    and c3: "getitem ?B (key ?hS)
              = Some (?hS\<lparr>log_prob := ln (exp (log_prob ?hS) + exp (log_prob ?hN))\<rparr>)"
    by simp_all
  from add_merges_by_logaddexp[where self = "[]" and hyp = ?h0] b
  have c2: "add [] ?h0 = [] @ [(key ?h0, ?h0)]" by blast
  show ?thesis
    using a b c1 c2 c3 run by (simp add: toy_keys)
qed

text \<open>
  Claim C2, as amended. Whenever \<open>add\<close> merges two hypotheses during
  \<open>modified_beam_search\<close>, they have the same key and the same token sequence, and their
  timestamp sequences have the same length, as have their score sequences. The
  sequences themselves can differ: the same tokens can have been emitted at different
  frames.
\<close>

theorem merged_hypotheses_share_tokens:
  assumes "beam_search_loop topk sort_desc m encoder_out encoder_out_lens beam temperature
           = (calls, Inr (unsorted, st))"
  shows "\<forall>(old, new) \<in> set (b_merged st).
           key old = key new \<and> ys old = ys new \<and>
           length (timestamp old) = length (timestamp new) \<and>
           length (hyp_scores old) = length (hyp_scores new)"
proof -
  from beam_search_loop_inv(1)[OF assms] obtain t where "beam_inv m t st" by blast
  then have "\<forall>p \<in> set (b_merged st). merge_ok p" by (simp add: beam_inv_def)
  then show ?thesis by (auto simp: merge_ok_def key_eq_iff)
qed

theorem merged_hypotheses_share_tokens_witness:
  "(\<exists>st. beam_search_loop topk_first argsort_desc toy [[[7], [8]]] [2] 3 1 = (7, Inr ([0], st)) \<and>
      b_merged st =
        [(\<lparr>ys = [0, 0, 1], hyp_scores = [2 - toy_Z], log_prob = 4 - 2 * toy_Z, timestamp = [0]\<rparr>,
          \<lparr>ys = [0, 0, 1], hyp_scores = [3 - 2 * toy_Z], log_prob = 3 - 2 * toy_Z,
            timestamp = [1]\<rparr>)]) \<and>
   key \<lparr>ys = [0, 0, 1], hyp_scores = [2 - toy_Z], log_prob = 4 - 2 * toy_Z, timestamp = [0]\<rparr>
     = key \<lparr>ys = [0, 0, 1], hyp_scores = [3 - 2 * toy_Z], log_prob = 3 - 2 * toy_Z,
            timestamp = [1]\<rparr> \<and>
   length [0 :: nat] = length [1 :: nat] \<and> length [2 - toy_Z] = length [3 - 2 * toy_Z]"
  using merged_hypotheses_share_tokens[OF toy_beam3_loop] toy_beam3_loop
  by simp

text \<open>
  The claim as stated fails. On one utterance of two frames with beam \<open>3\<close>, the second
  step selects the blank after the hypothesis that emitted token \<open>1\<close> at frame \<open>0\<close>, and
  token \<open>1\<close> after the hypothesis that has emitted nothing. Both candidates have the
  tokens \<open>[0, 0, 1]\<close> and are merged, but their timestamps are \<open>[0]\<close> and \<open>[1]\<close>.
\<close>

theorem merged_timestamps_differ_counterexample:
  "beam_search_loop topk_first argsort_desc toy [[[7], [8]]] [2] 3 1 =
   (7, Inr ([0],
     \<lparr>b_B = [[(''0_0_1'', \<lparr>ys = [0, 0, 1], hyp_scores = [2 - toy_Z],
                    log_prob = logaddexp (4 - 2 * toy_Z) (3 - 2 * toy_Z), timestamp = [0]\<rparr>),
                (''0_0_1_1'', \<lparr>ys = [0, 0, 1, 1], hyp_scores = [2 - toy_Z, 3 - 2 * toy_Z],
                    log_prob = 3 - 2 * toy_Z, timestamp = [0, 1]\<rparr>)]],
        b_finalized = [], b_offset = 2, b_calls = 7,
        b_merged = [(\<lparr>ys = [0, 0, 1], hyp_scores = [2 - toy_Z], log_prob = 4 - 2 * toy_Z,
                       timestamp = [0]\<rparr>,
                     \<lparr>ys = [0, 0, 1], hyp_scores = [3 - 2 * toy_Z], log_prob = 3 - 2 * toy_Z,
                       timestamp = [1]\<rparr>)]\<rparr>)) \<and>
   timestamp \<lparr>ys = [0, 0, 1], hyp_scores = [2 - toy_Z], log_prob = 4 - 2 * toy_Z, timestamp = [0]\<rparr>
     \<noteq> timestamp \<lparr>ys = [0, 0, 1], hyp_scores = [3 - 2 * toy_Z], log_prob = 3 - 2 * toy_Z,
                   timestamp = [1]\<rparr>"
  using toy_beam3_loop by simp

section \<open>The selection policy\<close>





section \<open>What a step appends\<close>

lemma toy_Z_gt_2: "2 < toy_Z"
proof -
  have "exp 2 < exp 0 + exp 1 + exp (2 :: real)" by (simp add: add_pos_pos)
  then have "ln (exp 2) < ln (exp 0 + exp 1 + exp (2 :: real))"
    by (subst ln_less_cancel_iff) (simp_all add: add_pos_pos)
  then show ?thesis by (simp add: toy_Z_def)
qed

text \<open>
  Claim C5 at a failing input. One utterance of three frames, beam \<open>1\<close>: both decoders emit
  token \<open>1\<close> at frame \<open>0\<close> and token \<open>2\<close> at frame \<open>2\<close>, and the log-prob of token \<open>2\<close> at
  frame \<open>2\<close> after the context \<open>[0, 1]\<close> is \<open>2 - toy_Z\<close>. \<open>greedy_search_batch\<close> reports that
  score. \<open>modified_beam_search\<close> reports \<open>6 - 3 * toy_Z\<close>, the cumulative log-prob of the
  path: \<open>log_probs_t\<close> shares the storage that \<open>log_probs.add_(ys_log_probs)\<close> overwrites.
\<close>

theorem beam_score_is_cumulative_log_prob:
  "modified_beam_search topk_first argsort_desc toy [[[7], [8], [7]]] [3] 1 1 =
     (10, Inr \<lparr>timestamps = [[0, 2]], hyps = [[1, 2]],
               scores = [[2 - toy_Z, 6 - 3 * toy_Z]]\<rparr>) \<and>
   greedy_search_batch argsort_desc toy [[[7], [8], [7]]] [3] =
     (10, Inr \<lparr>timestamps = [[0, 2]], hyps = [[1, 2]], scores = [[2 - toy_Z, 2 - toy_Z]]\<rparr>) \<and>
   log_softmax (joiner toy (encoder_proj toy [7]) (decoder_proj toy (decoder toy [0, 1]))) ! 2
     = 2 - toy_Z \<and>
   6 - 3 * toy_Z \<noteq> 2 - toy_Z"
  using toy_beam1_run toy_greedy_run toy_Z_gt_2 by (simp add: toy_fields toy_log_softmax)

theorem beam_score_is_cumulative_log_prob_witness:
  "modified_beam_search topk_first argsort_desc toy [[[7], [8], [7]]] [3] 1 1
     \<noteq> greedy_search_batch argsort_desc toy [[[7], [8], [7]]] [3]"
  using beam_score_is_cumulative_log_prob by simp

end
